theory Spec2Isabelle
  imports Main
begin

section \<open>Data model\<close>

text \<open>
  The plugin of \<^verbatim>\<open>src/index.ts\<close> rewrites a source text line by line. Lines are
  JavaScript strings, modelled as \<^typ>\<open>string\<close>; line indices are 0-based naturals.

  \<^verbatim>\<open>getToken\<close> returns \<^verbatim>\<open>[token, expression, match.index, match[0].length]\<close> or
  \<^verbatim>\<open>undefined\<close>. The regular expression is a setting of the plugin
  (\<^verbatim>\<open>settings.regExp\<close>), so the functions below take the matcher as a parameter; the
  two built-in expressions are modelled in the next section.
\<close>

type_synonym token_data = "string \<times> string \<times> nat \<times> nat"

type_synonym matcher = "string \<Rightarrow> token_data option"

text \<open>
  The \<^verbatim>\<open>location\<close> objects built by \<^verbatim>\<open>parseIf\<close>: \<^verbatim>\<open>line\<close> is 1-based,
  \<^verbatim>\<open>column\<close> and \<^verbatim>\<open>length\<close> are only set when the line is a directive, and
  \<^verbatim>\<open>file\<close> is added by \<^verbatim>\<open>setup\<close>.
\<close>

record location =
  loc_file :: "string option"
  loc_line :: nat
  loc_lineText :: string
  loc_column :: "nat option"
  loc_length :: "nat option"

text \<open>An esbuild message as the plugin fills it: \<^verbatim>\<open>{text, location}\<close>.\<close>

record message =
  msg_text :: string
  msg_location :: location

text \<open>
  A thrown \<^verbatim>\<open>Error\<close> object with the properties the plugin reads and writes:
  \<^verbatim>\<open>message\<close>, \<^verbatim>\<open>line\<close> (0-based, absent unless assigned) and \<^verbatim>\<open>location\<close>.
\<close>

record js_error =
  err_message :: string
  err_line :: "nat option"
  err_location :: "location option"

text \<open>
  What one file's processing does besides returning: the \<^verbatim>\<open>warnings\<close> array that the
  \<^verbatim>\<open>warn\<close> callback of \<^verbatim>\<open>setup\<close> pushes to, and the calls of \<^verbatim>\<open>evalExpression\<close>
  in the order they happen (expression and line index of each call). Console output of
  the \<^verbatim>\<open>verbose\<close> setting is not modelled.
\<close>

record effects =
  warnings :: "message list"
  evals :: "(string \<times> nat) list"

section \<open>The directive matcher\<close>

text \<open>
  \<^verbatim>\<open>regExps.triple = /\/\/\/[\s]*#(?<token>.*?)(?:[\s]+(?<expression>.*?))?[\s]*$/\<close>,
  and \<^verbatim>\<open>regExps.double\<close> the same with two slashes. Characters are the 8-bit
  \<^typ>\<open>char\<close>: \<^verbatim>\<open>\s\<close> is tab, line feed, vertical tab, form feed, carriage return,
  space and no-break space; \<^verbatim>\<open>.\<close> is every character but line feed and carriage
  return.
\<close>

definition is_space :: "char \<Rightarrow> bool" where
  "is_space c \<longleftrightarrow>
     c \<in> set [CHR 0x09, CHR 0x0A, CHR 0x0B, CHR 0x0C, CHR 0x0D, CHR 0x20, CHR 0xA0]"

definition is_dot :: "char \<Rightarrow> bool" where
  "is_dot c \<longleftrightarrow> c \<noteq> CHR 0x0A \<and> c \<noteq> CHR 0x0D"

text \<open>
  \<^verbatim>\<open>(?<expression>.*?)[\s]*$\<close>: the lazy group takes the fewest characters after
  which only white space is left.
\<close>

fun expression_lazy :: "string \<Rightarrow> string option" where
  "expression_lazy [] = Some []"
| "expression_lazy (c # cs) =
     (if list_all is_space (c # cs) then Some []
      else if is_dot c then map_option ((#) c) (expression_lazy cs)
      else None)"

text \<open>
  \<^verbatim>\<open>[\s]+\<close> in front of the expression is greedy: it is tried with \<open>n\<close> white-space
  characters, then with fewer, down to one.
\<close>

fun group_greedy :: "nat \<Rightarrow> string \<Rightarrow> string option" where
  "group_greedy 0 s = None"
| "group_greedy (Suc n) s =
     (case expression_lazy (drop (Suc n) s) of
        Some e \<Rightarrow> Some e
      | None \<Rightarrow> group_greedy n s)"

text \<open>
  \<^verbatim>\<open>(?:[\s]+(?<expression>.*?))?[\s]*$\<close>: the optional group is tried first, then the
  match without it, where \<^verbatim>\<open>match.groups.expression ?? ""\<close> is the empty string.
\<close>

definition rest_match :: "string \<Rightarrow> string option" where
  "rest_match s =
     (case group_greedy (length (takeWhile is_space s)) s of
        Some e \<Rightarrow> Some e
      | None \<Rightarrow> if list_all is_space s then Some [] else None)"

text \<open>\<^verbatim>\<open>(?<token>.*?)\<close>: lazy, the shortest token after which the rest matches.\<close>

fun token_lazy :: "string \<Rightarrow> (string \<times> string) option" where
  "token_lazy [] = map_option (Pair []) (rest_match [])"
| "token_lazy (c # cs) =
     (case rest_match (c # cs) of
        Some e \<Rightarrow> Some ([], e)
      | None \<Rightarrow>
          if is_dot c then map_option (\<lambda>(t, e). (c # t, e)) (token_lazy cs) else None)"

text \<open>
  The match anchored at the head of \<open>s\<close>: the slashes, \<^verbatim>\<open>[\s]*\<close>, then \<^verbatim>\<open>#\<close>. No
  white-space character is a \<^verbatim>\<open>#\<close>, so the only length of \<^verbatim>\<open>[\s]*\<close> that can be
  followed by \<^verbatim>\<open>#\<close> is the whole run.
\<close>

definition match_here :: "string \<Rightarrow> string \<Rightarrow> (string \<times> string) option" where
  "match_here slashes s =
     (if take (length slashes) s = slashes then
        (case dropWhile is_space (drop (length slashes) s) of
           [] \<Rightarrow> None
         | c # r \<Rightarrow> if c = CHR 0x23 then token_lazy r else None)
      else None)"

text \<open>
  \<^verbatim>\<open>line.match(regExp)\<close> returns the leftmost match; \<open>p\<close> is \<^verbatim>\<open>match.index\<close>, and
  the match runs to the end of the line because of \<^verbatim>\<open>$\<close>.
\<close>

fun search :: "string \<Rightarrow> nat \<Rightarrow> string \<Rightarrow> token_data option" where
  "search slashes p [] = None"
| "search slashes p (c # cs) =
     (case match_here slashes (c # cs) of
        Some (t, e) \<Rightarrow> Some (t, e, p, length (c # cs))
      | None \<Rightarrow> search slashes (p + 1) cs)"

text \<open>
  \<^verbatim>\<open>getToken\<close> when \<^verbatim>\<open>settings.regExp\<close> is not given:
  \<^verbatim>\<open>settings.requireTripleSlash !== false ? regExps.triple : regExps.double\<close>.
\<close>

definition getToken :: "bool \<Rightarrow> matcher" where
  "getToken requireTripleSlash line =
     (if requireTripleSlash then search ''///'' 0 line else search ''//'' 0 line)"

section \<open>The expression evaluator\<close>

text \<open>
  \<^verbatim>\<open>evalExpression\<close> hands the expression to the JavaScript engine in two steps:
  \<^verbatim>\<open>new Function(...names, 'return eval("' + expression + '")')\<close>, which throws a
  \<^verbatim>\<open>SyntaxError\<close> when the text does not parse as a function body, and the call of
  that function inside \<^verbatim>\<open>try\<close>, which returns a value or throws. The engine with the
  plugin's \<^verbatim>\<open>variables\<close> bound is a parameter: given the calls made so far (expressions
  may have side effects) and the expression it answers with one of these outcomes.
\<close>

datatype js_thrown =
  Thrown_Object string
| Thrown_Null
| Thrown_Primitive string

datatype js_outcome =
  Construct_Throws string
| Returns bool
| Throws js_thrown

type_synonym engine = "(string \<times> nat) list \<Rightarrow> string \<Rightarrow> js_outcome"

text \<open>
  \<^item> \<open>Construct_Throws m\<close>: \<^verbatim>\<open>new Function\<close> throws an error with message \<open>m\<close>; this
    happens before \<^verbatim>\<open>try\<close>, so the error leaves \<^verbatim>\<open>evalExpression\<close> as it is;
  \<^item> \<open>Returns b\<close>: the call returns a value whose truthiness \<^verbatim>\<open>!!\<close> is \<open>b\<close>;
  \<^item> \<open>Throws (Thrown_Object m)\<close>: the call throws an object with message \<open>m\<close>;
    \<^verbatim>\<open>typeof e === "object"\<close>, so \<^verbatim>\<open>e.line = line\<close>;
  \<^item> \<open>Throws Thrown_Null\<close>: the call throws \<^verbatim>\<open>null\<close>, whose \<^verbatim>\<open>typeof\<close> is
    \<^verbatim>\<open>"object"\<close> too; the assignment \<^verbatim>\<open>e.line = line\<close> throws a \<^verbatim>\<open>TypeError\<close>
    that leaves the \<^verbatim>\<open>catch\<close> block with no \<^verbatim>\<open>line\<close>;
  \<^item> \<open>Throws (Thrown_Primitive s)\<close>: the call throws a value of another type whose
    string conversion is \<open>s\<close>; it is wrapped in
    \<^verbatim>\<open>new Error('Error executing expression: ' + e)\<close>, and that error gets the line.
\<close>

definition null_line_message :: string where
  "null_line_message = ''Cannot set properties of null (setting 'line')''"

definition raise :: "string \<Rightarrow> nat option \<Rightarrow> js_error" where
  "raise m l = \<lparr>err_message = m, err_line = l, err_location = None\<rparr>"

definition evalExpression ::
  "engine \<Rightarrow> string \<Rightarrow> nat \<Rightarrow> effects \<Rightarrow> (js_error + bool) \<times> effects" where
  "evalExpression ev expression line eff =
     (let eff' = eff\<lparr>evals := evals eff @ [(expression, line)]\<rparr> in
      case ev (evals eff) expression of
        Construct_Throws m \<Rightarrow> (Inl (raise m None), eff')
      | Returns res \<Rightarrow> (Inr res, eff')
      | Throws (Thrown_Object m) \<Rightarrow> (Inl (raise m (Some line)), eff')
      | Throws Thrown_Null \<Rightarrow> (Inl (raise null_line_message None), eff')
      | Throws (Thrown_Primitive s) \<Rightarrow>
          (Inl (raise (''Error executing expression: '' @ s) (Some line)), eff'))"

section \<open>The block parser\<close>

text \<open>
  The \<^verbatim>\<open>warn\<close> callback that \<^verbatim>\<open>setup\<close> passes down:
  \<^verbatim>\<open>(msg) => warnings.push({...msg, location: {...msg.location, file: args.path}})\<close>.
\<close>

definition warn :: "string \<Rightarrow> message \<Rightarrow> effects \<Rightarrow> effects" where
  "warn file msg eff =
     eff\<lparr>warnings := warnings eff @
       [msg\<lparr>msg_location := (msg_location msg)\<lparr>loc_file := Some file\<rparr>\<rparr>]\<rparr>"

text \<open>
  The \<^verbatim>\<open>catch\<close> block of \<^verbatim>\<open>parseIf\<close>: the error is located at its own \<^verbatim>\<open>line\<close>
  when it has one and at the frame's \<^verbatim>\<open>start\<close> otherwise, the \<^verbatim>\<open>location\<close>
  property is overwritten, and the error is thrown again. \<open>location_of\<close> is the
  object assigned: \<^verbatim>\<open>{line: line + 1, lineText: lines[line]}\<close>, with \<^verbatim>\<open>column\<close>
  and \<^verbatim>\<open>length\<close> when \<^verbatim>\<open>getToken(lines[line])\<close> matches.
\<close>

definition location_of :: "matcher \<Rightarrow> string list \<Rightarrow> nat \<Rightarrow> location" where
  "location_of gt lines line =
     (let tokenData = gt (lines ! line)
      in \<lparr>loc_file = None, loc_line = line + 1, loc_lineText = lines ! line,
          loc_column = map_option (\<lambda>(token, expression, column, len). column) tokenData,
          loc_length = map_option (\<lambda>(token, expression, column, len). len) tokenData\<rparr>)"

definition locate :: "matcher \<Rightarrow> string list \<Rightarrow> nat \<Rightarrow> js_error \<Rightarrow> js_error" where
  "locate gt lines start err =
     (let line = (case err_line err of Some l \<Rightarrow> l | None \<Rightarrow> start)
      in err\<lparr>err_location := Some (location_of gt lines line)\<rparr>)"

text \<open>Decimal digits of a number, for \<^verbatim>\<open>'... on line ' + start\<close>.\<close>

fun show_nat :: "nat \<Rightarrow> string" where
  "show_nat n =
     (if n < 10 then [''0123456789'' ! n]
      else show_nat (n div 10) @ [''0123456789'' ! (n mod 10)])"

declare show_nat.simps [simp del]

text \<open>
  The second \<^verbatim>\<open>switch\<close> of the loop body (\<^verbatim>\<open>else\<close>, \<^verbatim>\<open>elseif\<close>, \<^verbatim>\<open>elif\<close>): the
  new values of \<^verbatim>\<open>prune\<close> and \<^verbatim>\<open>done\<close>, or the error of the evaluator.
\<close>

definition branch_switch ::
  "engine \<Rightarrow> string \<Rightarrow> string \<Rightarrow> nat \<Rightarrow> bool \<Rightarrow> bool \<Rightarrow> effects
     \<Rightarrow> (js_error + bool \<times> bool) \<times> effects" where
  "branch_switch ev token expression i prune done eff =
     (if token = ''else'' then (Inr (done, done), eff)
      else if token = ''elseif'' \<or> token = ''elif'' then
        (case evalExpression ev expression i eff of
           (Inl err, eff') \<Rightarrow> (Inl err, eff')
         | (Inr exp, eff') \<Rightarrow> (Inr (done \<or> \<not> exp, if \<not> done then exp else done), eff'))
      else (Inr (prune, done), eff))"

text \<open>
  One pass through the body of the \<^verbatim>\<open>for\<close> loop of \<^verbatim>\<open>parseIf\<close>, at index
  \<open>i\<close> with the locals \<^verbatim>\<open>remove\<close>, \<^verbatim>\<open>prune\<close> and \<^verbatim>\<open>done\<close>. The pass ends
  in one of four ways:
  \<^item> \<open>Continue\<close>: \<^verbatim>\<open>continue\<close> or the end of the body, with the new locals and
    effects; the loop goes on at \<open>i + 1\<close>;
  \<^item> \<open>Recurse\<close>: an \<^verbatim>\<open>if\<close> that is not the frame's own; \<^verbatim>\<open>parseIf\<close> is called for
    the inner frame (the loop below makes the call);
  \<^item> \<open>Return\<close>: \<^verbatim>\<open>endif\<close>, the frame returns \<^verbatim>\<open>{end: i, remove}\<close>;
  \<^item> \<open>Throw\<close>: an error is thrown inside \<^verbatim>\<open>try\<close>.
\<close>

datatype pass =
  Continue "nat list" bool bool effects
| Recurse "nat list"
| Return "nat list"
| Throw js_error effects

definition parseIf_body ::
  "matcher \<Rightarrow> engine \<Rightarrow> string \<Rightarrow> string list \<Rightarrow> nat \<Rightarrow> bool \<Rightarrow> nat \<Rightarrow> nat list \<Rightarrow> bool \<Rightarrow> bool
     \<Rightarrow> effects \<Rightarrow> pass" where
  "parseIf_body gt ev file lines start ignore i remove prune done eff =
     (let remove1 = (if prune \<or> ignore then remove @ [i] else remove) in
      case gt (lines ! i) of
        None \<Rightarrow> Continue remove1 prune done eff
      | Some (token, expression, column, len) \<Rightarrow>
          (let remove2 = remove1 @ [i] in
           if token = ''if'' then
             (if i \<noteq> start then Recurse remove2
              else
                (case evalExpression ev expression i eff of
                   (Inl err, eff') \<Rightarrow> Throw err eff'
                 | (Inr exp, eff') \<Rightarrow> Continue remove2 (\<not> exp) exp eff'))
           else if token = ''endif'' then Return remove2
           else if ignore \<or> (prune \<and> done) then Continue remove2 prune done eff
           else
             (case branch_switch ev token expression i prune done eff of
                (Inl err, eff') \<Rightarrow> Throw err eff'
              | (Inr (prune', done'), eff') \<Rightarrow>
                  if prune' then Continue remove2 prune' done' eff'
                  else if token = ''warning'' \<or> token = ''warn'' then
                    Continue remove2 prune' done'
                      (warn file
                         \<lparr>msg_text = expression,
                          msg_location =
                            \<lparr>loc_file = None, loc_line = i + 1, loc_lineText = lines ! i,
                             loc_column = Some column, loc_length = Some len\<rparr>\<rparr>
                         eff')
                  else if token = ''error'' \<or> token = ''err'' then
                    Throw (raise expression (Some i)) eff'
                  else Continue remove2 prune' done' eff')))"

text \<open>
  The \<^verbatim>\<open>for\<close> loop of \<^verbatim>\<open>parseIf\<close> from index \<open>i\<close>. \<open>Inr (end, remove)\<close> is the
  \<^verbatim>\<open>return\<close> at \<^verbatim>\<open>endif\<close>; \<open>Inl err\<close> is an error thrown inside \<^verbatim>\<open>try\<close>,
  before the frame's own \<^verbatim>\<open>catch\<close> block. The call of \<^verbatim>\<open>parseIf\<close> for an inner
  \<^verbatim>\<open>if\<close> runs the loop of the inner frame with fresh locals and then, on an error,
  the inner frame's \<^verbatim>\<open>catch\<close> block; after its return the outer loop goes on behind
  the inner \<^verbatim>\<open>endif\<close> (\<^verbatim>\<open>i = data.end\<close>, then \<^verbatim>\<open>i++\<close>). Leaving the loop at the
  end of the lines throws the error of the unterminated \<^verbatim>\<open>if\<close>.
\<close>

function parseIf_loop ::
  "matcher \<Rightarrow> engine \<Rightarrow> string \<Rightarrow> string list \<Rightarrow> nat \<Rightarrow> bool \<Rightarrow> nat \<Rightarrow> nat list \<Rightarrow> bool \<Rightarrow> bool
     \<Rightarrow> effects \<Rightarrow> (js_error + nat \<times> nat list) \<times> effects" where
  "parseIf_loop gt ev file lines start ignore i remove prune done eff =
     (if i < length lines then
        (case parseIf_body gt ev file lines start ignore i remove prune done eff of
           Continue remove' prune' done' eff' \<Rightarrow>
             parseIf_loop gt ev file lines start ignore (i + 1) remove' prune' done' eff'
         | Recurse remove' \<Rightarrow>
             (case parseIf_loop gt ev file lines i (prune \<or> ignore) i [] False False eff of
                (Inl err, eff') \<Rightarrow> (Inl (locate gt lines i err), eff')
              | (Inr (end, rm), eff') \<Rightarrow>
                  parseIf_loop gt ev file lines start ignore (end + 1) (remove' @ rm) prune done
                    eff')
         | Return remove' \<Rightarrow> (Inr (i, remove'), eff)
         | Throw err eff' \<Rightarrow> (Inl err, eff'))
      else
        (Inl (raise (''Unterminated #if found on line '' @ show_nat start) None), eff))"
  by pat_completeness auto

lemma parseIf_body_Recurse:
  "parseIf_body gt ev file lines start ignore i remove prune done eff = Recurse r \<Longrightarrow> i \<noteq> start"
  by (auto simp: parseIf_body_def Let_def split: option.splits if_splits prod.splits sum.splits)

lemma parseIf_loop_dom_end:
  "parseIf_loop_dom (gt, ev, file, lines, start, ignore, i, remove, prune, done, eff) \<Longrightarrow>
   parseIf_loop gt ev file lines start ignore i remove prune done eff = (Inr (e, rm), eff') \<Longrightarrow>
   i \<le> e"
proof (induction gt ev "file" lines start ignore i remove prune "done" eff arbitrary: e rm eff'
       rule: parseIf_loop.pinduct)
  case (1 gt ev fl lines start ignore i remove prune dn eff)
  note IH = "1.IH"
  note res = "1.prems" [unfolded parseIf_loop.psimps [OF "1.hyps"]]
  show ?case
  proof (cases "i < length lines")
    case False
    with res show ?thesis by simp
  next
    case len: True
    show ?thesis
    proof (cases "parseIf_body gt ev fl lines start ignore i remove prune dn eff")
      case (Continue remove' prune' done' eff1)
      with res len IH(1) [OF len Continue] show ?thesis by fastforce
    next
      case (Recurse remove')
      obtain r eff1 where nested:
        "parseIf_loop gt ev fl lines i (prune \<or> ignore) i [] False False eff = (r, eff1)"
        by (cases "parseIf_loop gt ev fl lines i (prune \<or> ignore) i [] False False eff") auto
      show ?thesis
      proof (cases r)
        case (Inl err)
        with res len Recurse nested show ?thesis by simp
      next
        case (Inr b)
        obtain e1 rm1 where b: "b = (e1, rm1)" by (cases b) auto
        from IH(2) [OF len Recurse nested [unfolded Inr b]] have "i \<le> e1" .
        moreover
        from res len Recurse nested Inr b
        have "parseIf_loop gt ev fl lines start ignore (e1 + 1) (remove' @ rm1) prune dn eff1
                = (Inr (e, rm), eff')"
          by simp
        from IH(3) [OF len Recurse nested [symmetric] Inr b [symmetric] this]
        have "e1 + 1 \<le> e" .
        ultimately show ?thesis by simp
      qed
    next
      case (Return remove')
      with res len show ?thesis by simp
    next
      case (Throw err eff1)
      with res len show ?thesis by simp
    qed
  qed
qed

termination parseIf_loop
proof (relation "measures [\<lambda>(gt, ev, file, lines, start, ignore, i, remove, prune, done, eff).
                             length lines - i,
                           \<lambda>(gt, ev, file, lines, start, ignore, i, remove, prune, done, eff).
                             if i = start then 0 else 1]", goal_cases)
  case 1
  show ?case by simp
next
  case 2
  then show ?case by auto
next
  case 3
  then show ?case by (auto dest: parseIf_body_Recurse)
next
  case (4 gt ev fl lines start ignore i remove prune dn eff remove' r eff1 b e1 rm1)
  from 4(3,4,5) have "parseIf_loop gt ev fl lines i (prune \<or> ignore) i [] False False eff
      = (Inr (e1, rm1), eff1)"
    by simp
  from parseIf_loop_dom_end [OF 4(6) this] 4(1) show ?case by auto
qed

declare parseIf_loop.simps [simp del]

text \<open>
  \<^verbatim>\<open>parseIf\<close>: fresh locals, the loop from \<^verbatim>\<open>start\<close> inside \<^verbatim>\<open>try\<close>, and the
  \<^verbatim>\<open>catch\<close> block for whatever the loop throws.
\<close>

definition parseIf ::
  "matcher \<Rightarrow> engine \<Rightarrow> string \<Rightarrow> string list \<Rightarrow> nat \<Rightarrow> bool \<Rightarrow> effects
     \<Rightarrow> (js_error + nat \<times> nat list) \<times> effects" where
  "parseIf gt ev file lines start ignore eff =
     (case parseIf_loop gt ev file lines start ignore start [] False False eff of
        (Inl err, eff') \<Rightarrow> (Inl (locate gt lines start err), eff')
      | (Inr data, eff') \<Rightarrow> (Inr data, eff'))"

lemma parseIf_loop_end:
  "parseIf_loop gt ev file lines start ignore i remove prune done eff = (Inr (e, rm), eff') \<Longrightarrow>
   i \<le> e \<and> e < length lines"
proof (induction gt ev "file" lines start ignore i remove prune "done" eff arbitrary: e rm eff'
       rule: parseIf_loop.induct)
  case (1 gt ev fl lines start ignore i remove prune dn eff)
  note IH = "1.IH"
  note res = "1.prems" [unfolded parseIf_loop.simps [of gt ev fl lines start ignore i]]
  show ?case
  proof (cases "i < length lines")
    case False
    with res show ?thesis by simp
  next
    case len: True
    show ?thesis
    proof (cases "parseIf_body gt ev fl lines start ignore i remove prune dn eff")
      case (Continue remove' prune' done' eff1)
      with res len IH(1) [OF len Continue] show ?thesis by fastforce
    next
      case (Recurse remove')
      obtain r eff1 where nested:
        "parseIf_loop gt ev fl lines i (prune \<or> ignore) i [] False False eff = (r, eff1)"
        by (cases "parseIf_loop gt ev fl lines i (prune \<or> ignore) i [] False False eff") auto
      show ?thesis
      proof (cases r)
        case (Inl err)
        with res len Recurse nested show ?thesis by simp
      next
        case (Inr b)
        obtain e1 rm1 where b: "b = (e1, rm1)" by (cases b) auto
        from IH(2) [OF len Recurse nested [unfolded Inr b]] have "i \<le> e1" by simp
        moreover
        from res len Recurse nested Inr b
        have "parseIf_loop gt ev fl lines start ignore (e1 + 1) (remove' @ rm1) prune dn eff1
                = (Inr (e, rm), eff')"
          by simp
        from IH(3) [OF len Recurse nested [symmetric] Inr b [symmetric] this]
        have "e1 + 1 \<le> e \<and> e < length lines" .
        ultimately show ?thesis by simp
      qed
    next
      case (Return remove')
      with res len show ?thesis by simp
    next
      case (Throw err eff1)
      with res len show ?thesis by simp
    qed
  qed
qed

lemma parseIf_end:
  "parseIf gt ev file lines start ignore eff = (Inr (e, rm), eff') \<Longrightarrow>
   start \<le> e \<and> e < length lines"
  by (auto simp: parseIf_def split: prod.splits sum.splits dest: parseIf_loop_end)

section \<open>The formatter\<close>

text \<open>
  The first loop of \<^verbatim>\<open>format\<close>: every \<^verbatim>\<open>if\<close> directive met at the top level starts
  a frame with \<^verbatim>\<open>ignore = false\<close>; the loop goes on behind the frame's \<^verbatim>\<open>endif\<close>
  with the frame's indices pushed to \<^verbatim>\<open>remove\<close>. An error thrown by \<^verbatim>\<open>parseIf\<close>
  leaves \<^verbatim>\<open>format\<close>.
\<close>

function format_loop ::
  "matcher \<Rightarrow> engine \<Rightarrow> string \<Rightarrow> string list \<Rightarrow> nat \<Rightarrow> nat list \<Rightarrow> effects
     \<Rightarrow> (js_error + nat list) \<times> effects" where
  "format_loop gt ev file lines i remove eff =
     (if i < length lines then
        (case gt (lines ! i) of
           None \<Rightarrow> format_loop gt ev file lines (i + 1) remove eff
         | Some (token, expression, column, len) \<Rightarrow>
             if token \<noteq> ''if'' then format_loop gt ev file lines (i + 1) remove eff
             else
               (case parseIf gt ev file lines i False eff of
                  (Inl err, eff') \<Rightarrow> (Inl err, eff')
                | (Inr (end, rm), eff') \<Rightarrow>
                    format_loop gt ev file lines (end + 1) (remove @ rm) eff'))
      else (Inr remove, eff))"
  by pat_completeness auto

termination format_loop
proof (relation "measure (\<lambda>(gt, ev, file, lines, i, remove, eff). length lines - i)", goal_cases)
  case 1
  show ?case by simp
next
  case 2
  then show ?case by simp
next
  case 3
  then show ?case by simp
next
  case (4 gt ev fl lines i remove eff td token y expression ya column len r eff1 b e rm)
  from 4(7,8,9) have "parseIf gt ev fl lines i False eff = (Inr (e, rm), eff1)"
    by simp
  from parseIf_end [OF this] 4(1) show ?case by auto
qed

declare format_loop.simps [simp del]

text \<open>\<^verbatim>\<open>data.split('\n')\<close> and \<^verbatim>\<open>mapped.join('\n')\<close>.\<close>

definition prepend_char :: "char \<Rightarrow> string list \<Rightarrow> string list" where
  "prepend_char c ls = (c # hd ls) # tl ls"

fun split_lines :: "string \<Rightarrow> string list" where
  "split_lines [] = [[]]"
| "split_lines (c # cs) =
     (if c = CHR 0x0A then [] # split_lines cs else prepend_char c (split_lines cs))"

fun join_lines :: "string list \<Rightarrow> string" where
  "join_lines [] = []"
| "join_lines [l] = l"
| "join_lines (l # m # ls) = l @ CHR 0x0A # join_lines (m # ls)"

text \<open>
  The two \<^verbatim>\<open>lines.map\<close> calls of \<^verbatim>\<open>format\<close>, one for each value of
  \<^verbatim>\<open>settings.fillWithSpaces\<close>; \<^verbatim>\<open>remove.includes(+i)\<close> is membership in the list.
\<close>

definition render :: "bool \<Rightarrow> nat list \<Rightarrow> string list \<Rightarrow> string list" where
  "render fillWithSpaces remove lines =
     (if fillWithSpaces then
        map (\<lambda>(i, e). if i \<in> set remove then replicate (length e) CHR 0x20 else e)
          (enumerate 0 lines)
      else
        map (\<lambda>(i, e). if i \<in> set remove then ''//'' @ e else e) (enumerate 0 lines))"

definition format ::
  "bool \<Rightarrow> matcher \<Rightarrow> engine \<Rightarrow> string \<Rightarrow> string \<Rightarrow> effects \<Rightarrow> (js_error + string) \<times> effects" where
  "format fillWithSpaces gt ev data file eff =
     (let lines = split_lines data in
      case format_loop gt ev file lines 0 [] eff of
        (Inl err, eff') \<Rightarrow> (Inl err, eff')
      | (Inr remove, eff') \<Rightarrow> (Inr (join_lines (render fillWithSpaces remove lines)), eff'))"

text \<open>
  The \<^verbatim>\<open>onLoad\<close> callback of \<^verbatim>\<open>setup\<close>, from the text of the file on (reading the
  file and choosing the loader are left out). The result is
  \<^verbatim>\<open>{contents, warnings}\<close>, or \<^verbatim>\<open>{warnings, errors: [...]}\<close> with one error and no
  \<^verbatim>\<open>contents\<close>, or the error thrown again when it has no \<^verbatim>\<open>location\<close>.
\<close>

datatype load_result =
  Contents string "message list"
| Errors "message list" message
| Uncaught js_error

definition onLoad :: "bool \<Rightarrow> matcher \<Rightarrow> engine \<Rightarrow> string \<Rightarrow> string \<Rightarrow> load_result" where
  "onLoad fillWithSpaces gt ev path text =
     (case format fillWithSpaces gt ev text path \<lparr>warnings = [], evals = []\<rparr> of
        (Inr formatted, eff) \<Rightarrow> Contents formatted (warnings eff)
      | (Inl e, eff) \<Rightarrow>
          (case err_location e of
             None \<Rightarrow> Uncaught e
           | Some loc \<Rightarrow>
               Errors (warnings eff)
                 \<lparr>msg_text = err_message e, msg_location = loc\<lparr>loc_file := Some path\<rparr>\<rparr>))"

section \<open>The loop heads of a run\<close>

text \<open>
  Where one run of \<^verbatim>\<open>format\<close> on \<open>lines\<close>, started with the effects \<open>eff0\<close>,
  passes: \<open>Top i remove eff\<close> is the head of the loop of \<^verbatim>\<open>format\<close> with these
  values, \<open>Frame start ignore i remove prune done eff\<close> the head of the loop of
  \<^verbatim>\<open>parseIf\<close> in the frame opened at \<open>start\<close>. The rules are the calls of
  \<open>format_loop\<close> and \<open>parseIf_loop\<close>: the next pass, the entry into a frame, and
  the pass behind a frame that has returned.
\<close>

datatype point =
  Top nat "nat list" effects
| Frame nat bool nat "nat list" bool bool effects

inductive reached :: "matcher \<Rightarrow> engine \<Rightarrow> string \<Rightarrow> string list \<Rightarrow> effects \<Rightarrow> point \<Rightarrow> bool"
  for gt ev "file" lines eff0 where
  reached_start:
    "reached gt ev file lines eff0 (Top 0 [] eff0)"
| reached_top_plain:
    "reached gt ev file lines eff0 (Top i remove eff) \<Longrightarrow> i < length lines \<Longrightarrow>
     gt (lines ! i) = None \<Longrightarrow>
     reached gt ev file lines eff0 (Top (i + 1) remove eff)"
| reached_top_other:
    "reached gt ev file lines eff0 (Top i remove eff) \<Longrightarrow> i < length lines \<Longrightarrow>
     gt (lines ! i) = Some (token, expression, column, len) \<Longrightarrow> token \<noteq> ''if'' \<Longrightarrow>
     reached gt ev file lines eff0 (Top (i + 1) remove eff)"
| reached_top_if:
    "reached gt ev file lines eff0 (Top i remove eff) \<Longrightarrow> i < length lines \<Longrightarrow>
     gt (lines ! i) = Some (''if'', expression, column, len) \<Longrightarrow>
     reached gt ev file lines eff0 (Frame i False i [] False False eff)"
| reached_top_resume:
    "reached gt ev file lines eff0 (Top i remove eff) \<Longrightarrow> i < length lines \<Longrightarrow>
     gt (lines ! i) = Some (''if'', expression, column, len) \<Longrightarrow>
     parseIf gt ev file lines i False eff = (Inr (e, rm), eff') \<Longrightarrow>
     reached gt ev file lines eff0 (Top (e + 1) (remove @ rm) eff')"
| reached_continue:
    "reached gt ev file lines eff0 (Frame start ignore i remove prune done eff) \<Longrightarrow>
     i < length lines \<Longrightarrow>
     parseIf_body gt ev file lines start ignore i remove prune done eff
       = Continue remove' prune' done' eff' \<Longrightarrow>
     reached gt ev file lines eff0 (Frame start ignore (i + 1) remove' prune' done' eff')"
| reached_recurse:
    "reached gt ev file lines eff0 (Frame start ignore i remove prune done eff) \<Longrightarrow>
     i < length lines \<Longrightarrow>
     parseIf_body gt ev file lines start ignore i remove prune done eff = Recurse remove' \<Longrightarrow>
     reached gt ev file lines eff0 (Frame i (prune \<or> ignore) i [] False False eff)"
| reached_resume:
    "reached gt ev file lines eff0 (Frame start ignore i remove prune done eff) \<Longrightarrow>
     i < length lines \<Longrightarrow>
     parseIf_body gt ev file lines start ignore i remove prune done eff = Recurse remove' \<Longrightarrow>
     parseIf gt ev file lines i (prune \<or> ignore) eff = (Inr (e, rm), eff') \<Longrightarrow>
     reached gt ev file lines eff0 (Frame start ignore (e + 1) (remove' @ rm) prune done eff')"

fun point_index :: "point \<Rightarrow> nat" where
  "point_index (Top i remove eff) = i"
| "point_index (Frame start ignore i remove prune done eff) = i"

fun point_effects :: "point \<Rightarrow> effects" where
  "point_effects (Top i remove eff) = eff"
| "point_effects (Frame start ignore i remove prune done eff) = eff"

text \<open>
  Warnings in line order (the lines of messages are counted from 1): \<open>later_than n ws\<close>
  when every message of \<open>ws\<close> has a line greater than \<open>n\<close>, \<open>up_to n ws\<close> when
  every message of \<open>ws\<close> has a line of at most \<open>n\<close>.
\<close>

definition later_than :: "nat \<Rightarrow> message list \<Rightarrow> bool" where
  "later_than n ws \<longleftrightarrow> (\<forall>m \<in> set ws. n < loc_line (msg_location m))"

definition up_to :: "nat \<Rightarrow> message list \<Rightarrow> bool" where
  "up_to n ws \<longleftrightarrow> (\<forall>m \<in> set ws. loc_line (msg_location m) \<le> n)"

text \<open>
  What the whole run returns, seen from a loop head. From a head of the loop of
  \<^verbatim>\<open>format\<close> the run returns what that loop returns from there. When the loop of a
  frame throws, the run throws the same error with the same effects; only the location
  is overwritten by the \<^verbatim>\<open>catch\<close> blocks it passes, and it is the location of the
  error's \<^verbatim>\<open>line\<close> when the error has one. When the loop of a frame returns
  \<^verbatim>\<open>{end, remove}\<close>, the run goes on behind \<^verbatim>\<open>end\<close>: its warnings are those of
  the frame and then only warnings of later lines, an error it throws with a
  \<^verbatim>\<open>line\<close> has a later line, and the list it returns holds the frame's
  \<^verbatim>\<open>remove\<close>.
\<close>

fun run_of :: "matcher \<Rightarrow> engine \<Rightarrow> string \<Rightarrow> string list \<Rightarrow> effects \<Rightarrow> point \<Rightarrow> bool" where
  "run_of gt ev file lines eff0 (Top i remove eff) \<longleftrightarrow>
     format_loop gt ev file lines 0 [] eff0 = format_loop gt ev file lines i remove eff"
| "run_of gt ev file lines eff0 (Frame start ignore i remove prune done eff) \<longleftrightarrow>
     (case parseIf_loop gt ev file lines start ignore i remove prune done eff of
        (Inl err, eff1) \<Rightarrow>
          (\<exists>loc. format_loop gt ev file lines 0 [] eff0
                   = (Inl (err\<lparr>err_location := Some loc\<rparr>), eff1) \<and>
                 (\<forall>k. err_line err = Some k \<longrightarrow> loc = location_of gt lines k))
      | (Inr (e, rm), eff1) \<Rightarrow>
          (case format_loop gt ev file lines 0 [] eff0 of
             (res, eff2) \<Rightarrow>
               (\<exists>ws. warnings eff2 = warnings eff1 @ ws \<and> later_than (e + 1) ws) \<and>
               (case res of
                  Inl err \<Rightarrow> (\<forall>j. err_line err = Some j \<longrightarrow> e < j)
                | Inr final \<Rightarrow> set rm \<subseteq> set final)))"

text \<open>
  At a head of the loop of \<^verbatim>\<open>format\<close> every index pushed so far lies in front of
  the index of the loop.
\<close>

fun removed_before :: "point \<Rightarrow> bool" where
  "removed_before (Top i remove eff) \<longleftrightarrow> (\<forall>x \<in> set remove. x < i)"
| "removed_before (Frame start ignore i remove prune done eff) \<longleftrightarrow> True"

section \<open>An engine for the examples\<close>

text \<open>
  The examples below run the plugin with no variables bound, on four expressions. For
  these the engine answers as JavaScript does: \<^verbatim>\<open>true\<close> and \<^verbatim>\<open>false\<close> are the
  literals; with \<^verbatim>\<open>X === "a"\<close> the text
  \<^verbatim>\<open>return eval("X === "a"")\<close> is no function body, so \<^verbatim>\<open>new Function\<close> throws
  a \<^verbatim>\<open>SyntaxError\<close>; any other expression of the examples is a name that is not
  defined, whose evaluation throws a \<^verbatim>\<open>ReferenceError\<close>.
\<close>

definition sample_engine :: engine where
  "sample_engine calls expression =
     (if expression = ''true'' then Returns True
      else if expression = ''false'' then Returns False
      else if expression = ''X === '' @ [CHR 0x22, CHR ''a'', CHR 0x22] then
        Construct_Throws ''missing ) after argument list''
      else Throws (Thrown_Object (expression @ '' is not defined'')))"

definition no_effects :: effects where
  "no_effects = \<lparr>warnings = [], evals = []\<rparr>"

section \<open>The loops, one pass at a time\<close>

lemma parseIf_loop_Continue:
  "i < length lines \<Longrightarrow>
   parseIf_body gt ev file lines start ignore i remove prune done eff
     = Continue remove' prune' done' eff' \<Longrightarrow>
   parseIf_loop gt ev file lines start ignore i remove prune done eff
     = parseIf_loop gt ev file lines start ignore (i + 1) remove' prune' done' eff'"
  by (subst parseIf_loop.simps) simp

lemma parseIf_loop_Recurse:
  "i < length lines \<Longrightarrow>
   parseIf_body gt ev file lines start ignore i remove prune done eff = Recurse remove' \<Longrightarrow>
   parseIf_loop gt ev file lines start ignore i remove prune done eff
     = (case parseIf gt ev file lines i (prune \<or> ignore) eff of
          (Inl err, eff') \<Rightarrow> (Inl err, eff')
        | (Inr (end, rm), eff') \<Rightarrow>
            parseIf_loop gt ev file lines start ignore (end + 1) (remove' @ rm) prune done eff')"
  by (subst parseIf_loop.simps) (simp add: parseIf_def split: prod.splits sum.splits)

lemma parseIf_loop_Return:
  "i < length lines \<Longrightarrow>
   parseIf_body gt ev file lines start ignore i remove prune done eff = Return remove' \<Longrightarrow>
   parseIf_loop gt ev file lines start ignore i remove prune done eff = (Inr (i, remove'), eff)"
  by (subst parseIf_loop.simps) simp

lemma parseIf_loop_Throw:
  "i < length lines \<Longrightarrow>
   parseIf_body gt ev file lines start ignore i remove prune done eff = Throw err eff' \<Longrightarrow>
   parseIf_loop gt ev file lines start ignore i remove prune done eff = (Inl err, eff')"
  by (subst parseIf_loop.simps) simp

lemma parseIf_loop_eof:
  "\<not> i < length lines \<Longrightarrow>
   parseIf_loop gt ev file lines start ignore i remove prune done eff
     = (Inl (raise (''Unterminated #if found on line '' @ show_nat start) None), eff)"
  by (subst parseIf_loop.simps) simp

lemma body_warning:
  assumes tok: "gt (lines ! i) = Some (token, text, column, len)"
    and "token = ''warning'' \<or> token = ''warn''"
  shows "parseIf_body gt ev file lines start ignore i remove prune done eff =
     (if prune \<or> ignore then Continue (remove @ [i, i]) prune done eff
      else Continue (remove @ [i]) prune done
             (eff\<lparr>warnings := warnings eff @
                [\<lparr>msg_text = text,
                  msg_location =
                    \<lparr>loc_file = Some file, loc_line = i + 1, loc_lineText = lines ! i,
                     loc_column = Some column, loc_length = Some len\<rparr>\<rparr>]\<rparr>))"
proof -
  have "?thesis" if t: "token = ''warning''"
    using tok unfolding t by (simp add: parseIf_body_def branch_switch_def warn_def Let_def)
  moreover have "?thesis" if t: "token = ''warn''"
    using tok unfolding t by (simp add: parseIf_body_def branch_switch_def warn_def Let_def)
  ultimately show ?thesis using assms(2) by blast
qed

lemma body_error_inactive:
  assumes tok: "gt (lines ! i) = Some (token, text, column, len)"
    and "token = ''error'' \<or> token = ''err''"
    and off: "prune \<or> ignore"
  shows "parseIf_body gt ev file lines start ignore i remove prune done eff =
           Continue (remove @ [i, i]) prune done eff"
proof -
  have "?thesis" if t: "token = ''error''"
    using tok off unfolding t by (auto simp add: parseIf_body_def branch_switch_def Let_def)
  moreover have "?thesis" if t: "token = ''err''"
    using tok off unfolding t by (auto simp add: parseIf_body_def branch_switch_def Let_def)
  ultimately show ?thesis using assms(2) by blast
qed

lemma body_error_active:
  assumes tok: "gt (lines ! i) = Some (token, text, column, len)"
    and "token = ''error'' \<or> token = ''err''"
  shows "parseIf_body gt ev file lines start False i remove False done eff =
           Throw \<lparr>err_message = text, err_line = Some i, err_location = None\<rparr> eff"
proof -
  have "?thesis" if t: "token = ''error''"
    using tok unfolding t by (simp add: parseIf_body_def branch_switch_def Let_def raise_def)
  moreover have "?thesis" if t: "token = ''err''"
    using tok unfolding t by (simp add: parseIf_body_def branch_switch_def Let_def raise_def)
  ultimately show ?thesis using assms(2) by blast
qed

lemma body_remove_shape:
  assumes "parseIf_body gt ev file lines start ignore i remove prune done eff = b"
  shows "(case b of
      Continue r p d e \<Rightarrow>
        (gt (lines ! i) = None \<and> r = (if prune \<or> ignore then remove @ [i] else remove)) \<or>
        (gt (lines ! i) \<noteq> None \<and> r = (if prune \<or> ignore then remove @ [i] else remove) @ [i])
    | Recurse r \<Rightarrow> r = (if prune \<or> ignore then remove @ [i] else remove) @ [i]
    | Return r \<Rightarrow> r = (if prune \<or> ignore then remove @ [i] else remove) @ [i]
    | Throw err e \<Rightarrow> True)"
proof -
  define r1 where "r1 = (if prune \<or> ignore then remove @ [i] else remove)"
  show ?thesis
  proof (cases "gt (lines ! i)")
    case None
    then show ?thesis
      unfolding assms [symmetric] by (simp add: parseIf_body_def Let_def)
  next
    case (Some td)
    obtain token expression column len where td: "td = (token, expression, column, len)"
      by (cases td) auto
    show ?thesis
      unfolding assms [symmetric] parseIf_body_def Let_def Some td r1_def [symmetric]
      by (simp split: prod.split sum.split)
  qed
qed

lemma body_Continue_remove:
  "parseIf_body gt ev file lines start ignore i remove prune done eff = Continue r p d e \<Longrightarrow>
   set remove \<subseteq> set r \<and> (gt (lines ! i) \<noteq> None \<longrightarrow> i \<in> set r)"
  by (drule body_remove_shape) auto

lemma body_Recurse_remove:
  "parseIf_body gt ev file lines start ignore i remove prune done eff = Recurse r \<Longrightarrow>
   set remove \<subseteq> set r \<and> i \<in> set r"
  by (drule body_remove_shape) auto

lemma body_Return_remove:
  "parseIf_body gt ev file lines start ignore i remove prune done eff = Return r \<Longrightarrow>
   set remove \<subseteq> set r \<and> i \<in> set r"
  by (drule body_remove_shape) auto

lemma evalExpression_effects:
  assumes "evalExpression ev x i eff = (r, eff')"
  shows "warnings eff' = warnings eff \<and>
         (\<forall>err. r = Inl err \<longrightarrow> err_line err = None \<or> err_line err = Some i)"
  using assms
  by (auto simp: evalExpression_def raise_def Let_def split: js_outcome.splits js_thrown.splits)

lemma branch_switch_effects:
  assumes "branch_switch ev token x i prune done eff = (r, eff')"
  shows "warnings eff' = warnings eff \<and>
         (\<forall>err. r = Inl err \<longrightarrow> err_line err = None \<or> err_line err = Some i)"
proof (cases "token = ''else''")
  case True
  with assms show ?thesis by (auto simp add: branch_switch_def)
next
  case ne: False
  show ?thesis
  proof (cases "token = ''elseif'' \<or> token = ''elif''")
    case False
    with assms ne show ?thesis by (auto simp add: branch_switch_def)
  next
    case True
    obtain r1 eff1 where e: "evalExpression ev x i eff = (r1, eff1)"
      by (cases "evalExpression ev x i eff") auto
    from assms ne True e have "eff' = eff1" "\<And>err. r = Inl err \<Longrightarrow> r1 = Inl err"
      by (auto simp: branch_switch_def split: sum.splits)
    with evalExpression_effects [OF e] show ?thesis by auto
  qed
qed

lemma body_effects:
  assumes "parseIf_body gt ev file lines start ignore i remove prune done eff = b"
  shows "(case b of
      Continue r p d e \<Rightarrow>
        warnings e = warnings eff \<or>
        (\<exists>m. warnings e = warnings eff @ [m] \<and> loc_line (msg_location m) = i + 1)
    | Throw err e \<Rightarrow>
        warnings e = warnings eff \<and> (err_line err = None \<or> err_line err = Some i)
    | _ \<Rightarrow> True)"
proof -
  define r1 where "r1 = (if prune \<or> ignore then remove @ [i] else remove)"
  show ?thesis
  proof (cases "gt (lines ! i)")
    case None
    then show ?thesis
      unfolding assms [symmetric] by (simp add: parseIf_body_def Let_def)
  next
    case (Some td)
    obtain token expression column len where td: "td = (token, expression, column, len)"
      by (cases td) auto
    obtain re effe where ev: "evalExpression ev expression i eff = (re, effe)"
      by (cases "evalExpression ev expression i eff") auto
    obtain rb effb where bs: "branch_switch ev token expression i prune done eff = (rb, effb)"
      by (cases "branch_switch ev token expression i prune done eff") auto
    note e1 = evalExpression_effects [OF ev]
    note e2 = branch_switch_effects [OF bs]
    have eq: "parseIf_body gt ev file lines start ignore i remove prune done eff =
       (if token = ''if'' then
          (if i \<noteq> start then Recurse (r1 @ [i])
           else (case re of Inl err \<Rightarrow> Throw err effe
                 | Inr exp \<Rightarrow> Continue (r1 @ [i]) (\<not> exp) exp effe))
        else if token = ''endif'' then Return (r1 @ [i])
        else if ignore \<or> (prune \<and> done) then Continue (r1 @ [i]) prune done eff
        else
          (case rb of Inl err \<Rightarrow> Throw err effb
           | Inr (prune', done') \<Rightarrow>
               if prune' then Continue (r1 @ [i]) prune' done' effb
               else if token = ''warning'' \<or> token = ''warn'' then
                 Continue (r1 @ [i]) prune' done'
                   (warn file
                      \<lparr>msg_text = expression,
                       msg_location =
                         \<lparr>loc_file = None, loc_line = i + 1, loc_lineText = lines ! i,
                          loc_column = Some column, loc_length = Some len\<rparr>\<rparr>
                      effb)
               else if token = ''error'' \<or> token = ''err'' then
                 Throw (raise expression (Some i)) effb
               else Continue (r1 @ [i]) prune' done' effb))"
      by (simp only: parseIf_body_def Let_def Some td option.case prod.case r1_def [symmetric]
            ev bs)
    show ?thesis
      unfolding assms [symmetric] eq
      using e1 e2
      by (cases re; cases rb; auto simp add: warn_def raise_def split: prod.split)
  qed
qed

section \<open>The lines a frame removes\<close>

lemma parseIf_loop_directives:
  "parseIf_loop gt ev file lines start ignore i remove prune done eff = (Inr (e, rm), eff') \<Longrightarrow>
   set remove \<subseteq> set rm \<and> (\<forall>k. i \<le> k \<and> k \<le> e \<and> gt (lines ! k) \<noteq> None \<longrightarrow> k \<in> set rm)"
proof (induction gt ev "file" lines start ignore i remove prune "done" eff arbitrary: e rm eff'
       rule: parseIf_loop.induct)
  case (1 gt ev fl lines start ignore i remove prune dn eff)
  note IH = "1.IH"
  note res = "1.prems"
  show ?case
  proof (cases "i < length lines")
    case False
    with res show ?thesis by (simp add: parseIf_loop_eof)
  next
    case len: True
    show ?thesis
    proof (cases "parseIf_body gt ev fl lines start ignore i remove prune dn eff")
      case (Continue remove' prune' done' eff1)
      from res have next_res:
        "parseIf_loop gt ev fl lines start ignore (i + 1) remove' prune' done' eff1
           = (Inr (e, rm), eff')"
        by (simp add: parseIf_loop_Continue [OF len Continue])
      from IH(1) [OF len Continue next_res]
      have sub: "set remove' \<subseteq> set rm"
        and rest: "\<And>k. i + 1 \<le> k \<Longrightarrow> k \<le> e \<Longrightarrow> gt (lines ! k) \<noteq> None \<Longrightarrow> k \<in> set rm"
        by auto
      from body_Continue_remove [OF Continue]
      have here: "set remove \<subseteq> set remove'" "gt (lines ! i) \<noteq> None \<Longrightarrow> i \<in> set remove'"
        by auto
      show ?thesis
      proof (intro conjI allI impI)
        show "set remove \<subseteq> set rm" using sub here(1) by blast
      next
        fix k assume k: "i \<le> k \<and> k \<le> e \<and> gt (lines ! k) \<noteq> None"
        show "k \<in> set rm"
        proof (cases "k = i")
          case True
          with k here(2) sub show ?thesis by blast
        next
          case False
          with k have "i + 1 \<le> k" by simp
          with k rest show ?thesis by blast
        qed
      qed
    next
      case (Recurse remove')
      obtain r eff1 where nested:
        "parseIf_loop gt ev fl lines i (prune \<or> ignore) i [] False False eff = (r, eff1)"
        by (cases "parseIf_loop gt ev fl lines i (prune \<or> ignore) i [] False False eff") auto
      show ?thesis
      proof (cases r)
        case (Inl err)
        with res len Recurse nested show ?thesis
          by (simp add: parseIf_loop.simps [of gt ev fl lines start ignore i])
      next
        case (Inr b)
        obtain e1 rm1 where b: "b = (e1, rm1)" by (cases b) auto
        note inner = nested [unfolded Inr b]
        from IH(2) [OF len Recurse inner]
        have inner_dirs: "\<And>k. i \<le> k \<Longrightarrow> k \<le> e1 \<Longrightarrow> gt (lines ! k) \<noteq> None \<Longrightarrow> k \<in> set rm1"
          by auto
        from res len Recurse nested Inr b
        have next_res:
          "parseIf_loop gt ev fl lines start ignore (e1 + 1) (remove' @ rm1) prune dn eff1
             = (Inr (e, rm), eff')"
          by (simp add: parseIf_loop.simps [of gt ev fl lines start ignore i])
        from IH(3) [OF len Recurse nested [symmetric] Inr b [symmetric] next_res]
        have sub: "set (remove' @ rm1) \<subseteq> set rm"
          and rest: "\<And>k. e1 + 1 \<le> k \<Longrightarrow> k \<le> e \<Longrightarrow> gt (lines ! k) \<noteq> None \<Longrightarrow> k \<in> set rm"
          by auto
        from body_Recurse_remove [OF Recurse] have here: "set remove \<subseteq> set remove'" by simp
        show ?thesis
        proof (intro conjI allI impI)
          show "set remove \<subseteq> set rm" using sub here by auto
        next
          fix k assume k: "i \<le> k \<and> k \<le> e \<and> gt (lines ! k) \<noteq> None"
          show "k \<in> set rm"
          proof (cases "k \<le> e1")
            case True
            with k inner_dirs have "k \<in> set rm1" by blast
            with sub show ?thesis by auto
          next
            case False
            then have "e1 + 1 \<le> k" by simp
            with k rest show ?thesis by blast
          qed
        qed
      qed
    next
      case (Return remove')
      from res have "e = i" "rm = remove'"
        by (simp_all add: parseIf_loop_Return [OF len Return])
      with body_Return_remove [OF Return] show ?thesis by auto
    next
      case (Throw err eff1)
      with res len show ?thesis by (simp add: parseIf_loop_Throw [OF len Throw])
    qed
  qed
qed

lemma parseIf_directives:
  "parseIf gt ev file lines start ignore eff = (Inr (e, rm), eff') \<Longrightarrow>
   start \<le> k \<Longrightarrow> k \<le> e \<Longrightarrow> gt (lines ! k) \<noteq> None \<Longrightarrow> k \<in> set rm"
  using parseIf_loop_directives [of gt ev "file" lines start ignore start "[]" False False eff e rm eff']
  by (auto simp: parseIf_def split: prod.splits sum.splits)

lemma format_loop_remove:
  "format_loop gt ev file lines i remove eff = (Inr final, eff') \<Longrightarrow> set remove \<subseteq> set final"
proof (induction gt ev "file" lines i remove eff arbitrary: final eff' rule: format_loop.induct)
  case (1 gt ev fl lines i remove eff)
  note res = "1.prems" [unfolded format_loop.simps [of gt ev fl lines i]]
  show ?case
  proof (cases "i < length lines")
    case False
    with res show ?thesis by simp
  next
    case len: True
    show ?thesis
    proof (cases "gt (lines ! i)")
      case None
      with res len "1.IH"(1) [OF len None] show ?thesis by simp
    next
      case (Some td)
      obtain token expression column len' where td: "td = (token, expression, column, len')"
        by (cases td) auto
      show ?thesis
      proof (cases "token = ''if''")
        case False
        with res len Some td "1.IH"(2) [OF len Some td [symmetric] refl refl] show ?thesis
          by simp
      next
        case True
        obtain r eff1 where p: "parseIf gt ev fl lines i False eff = (r, eff1)"
          by (cases "parseIf gt ev fl lines i False eff") auto
        show ?thesis
        proof (cases r)
          case (Inl err)
          with res len Some td True p show ?thesis by simp
        next
          case (Inr b)
          obtain e rm where b: "b = (e, rm)" by (cases b) auto
          from res len Some td True p Inr b
          have "format_loop gt ev fl lines (e + 1) (remove @ rm) eff1 = (Inr final, eff')"
            by simp
          from "1.IH"(3) [OF len Some td [symmetric] refl refl _ p [symmetric] Inr b [symmetric] this]
            True
          show ?thesis by simp
        qed
      qed
    qed
  qed
qed

lemma body_Continue_within:
  "parseIf_body gt ev file lines start ignore i remove prune done eff = Continue r p d e \<Longrightarrow>
   set r \<subseteq> insert i (set remove)"
  by (drule body_remove_shape) (auto split: if_splits)

lemma body_Recurse_within:
  "parseIf_body gt ev file lines start ignore i remove prune done eff = Recurse r \<Longrightarrow>
   set r \<subseteq> insert i (set remove)"
  by (drule body_remove_shape) (auto split: if_splits)

lemma body_Return_within:
  "parseIf_body gt ev file lines start ignore i remove prune done eff = Return r \<Longrightarrow>
   set r \<subseteq> insert i (set remove)"
  by (drule body_remove_shape) (auto split: if_splits)

lemma parseIf_loop_within:
  "parseIf_loop gt ev file lines start ignore i remove prune done eff = (Inr (e, rm), eff') \<Longrightarrow>
   set rm \<subseteq> set remove \<union> {i..e}"
proof (induction gt ev "file" lines start ignore i remove prune "done" eff arbitrary: e rm eff'
       rule: parseIf_loop.induct)
  case (1 gt ev fl lines start ignore i remove prune dn eff)
  note IH = "1.IH"
  note res = "1.prems"
  show ?case
  proof (cases "i < length lines")
    case False
    with res show ?thesis by (simp add: parseIf_loop_eof)
  next
    case len: True
    show ?thesis
    proof (cases "parseIf_body gt ev fl lines start ignore i remove prune dn eff")
      case (Continue remove' prune' done' eff1)
      from res have next_res:
        "parseIf_loop gt ev fl lines start ignore (i + 1) remove' prune' done' eff1
           = (Inr (e, rm), eff')"
        by (simp add: parseIf_loop_Continue [OF len Continue])
      from IH(1) [OF len Continue next_res] have "set rm \<subseteq> set remove' \<union> {i + 1..e}" .
      moreover from body_Continue_within [OF Continue]
      have "set remove' \<subseteq> insert i (set remove)" .
      moreover from parseIf_loop_end [OF next_res] have "i + 1 \<le> e" by simp
      ultimately show ?thesis by (fastforce simp: subset_iff)
    next
      case (Recurse remove')
      obtain r eff1 where nested:
        "parseIf_loop gt ev fl lines i (prune \<or> ignore) i [] False False eff = (r, eff1)"
        by (cases "parseIf_loop gt ev fl lines i (prune \<or> ignore) i [] False False eff") auto
      show ?thesis
      proof (cases r)
        case (Inl err)
        with res len Recurse nested show ?thesis
          by (simp add: parseIf_loop.simps [of gt ev fl lines start ignore i])
      next
        case (Inr b)
        obtain e1 rm1 where b: "b = (e1, rm1)" by (cases b) auto
        note inner = nested [unfolded Inr b]
        from IH(2) [OF len Recurse inner] have in1: "set rm1 \<subseteq> {i..e1}" by simp
        from parseIf_loop_end [OF inner] have e1: "i \<le> e1" by simp
        from res len Recurse nested Inr b
        have next_res:
          "parseIf_loop gt ev fl lines start ignore (e1 + 1) (remove' @ rm1) prune dn eff1
             = (Inr (e, rm), eff')"
          by (simp add: parseIf_loop.simps [of gt ev fl lines start ignore i])
        from IH(3) [OF len Recurse nested [symmetric] Inr b [symmetric] next_res]
        have "set rm \<subseteq> set (remove' @ rm1) \<union> {e1 + 1..e}" .
        moreover from body_Recurse_within [OF Recurse]
        have "set remove' \<subseteq> insert i (set remove)" .
        moreover from parseIf_loop_end [OF next_res] have "e1 + 1 \<le> e" by simp
        ultimately show ?thesis using in1 e1 by (fastforce simp: subset_iff)
      qed
    next
      case (Return remove')
      from res have "e = i" "rm = remove'"
        by (simp_all add: parseIf_loop_Return [OF len Return])
      with body_Return_within [OF Return] show ?thesis by auto
    next
      case (Throw err eff1)
      with res len show ?thesis by (simp add: parseIf_loop_Throw [OF len Throw])
    qed
  qed
qed

lemma parseIf_within:
  "parseIf gt ev file lines start ignore eff = (Inr (e, rm), eff') \<Longrightarrow> set rm \<subseteq> {start..e}"
  using parseIf_loop_within [of gt ev "file" lines start ignore start "[]" False False eff e rm eff']
  by (auto simp: parseIf_def split: prod.splits sum.splits)

lemma format_loop_within:
  "format_loop gt ev file lines i remove eff = (Inr final, eff') \<Longrightarrow>
   set final \<subseteq> set remove \<union> {i..<length lines}"
proof (induction gt ev "file" lines i remove eff arbitrary: final eff' rule: format_loop.induct)
  case (1 gt ev fl lines i remove eff)
  note res = "1.prems" [unfolded format_loop.simps [of gt ev fl lines i]]
  show ?case
  proof (cases "i < length lines")
    case False
    with res show ?thesis by simp
  next
    case len: True
    show ?thesis
    proof (cases "gt (lines ! i)")
      case None
      with res len have n: "format_loop gt ev fl lines (i + 1) remove eff = (Inr final, eff')"
        by simp
      from "1.IH"(1) [OF len None n] show ?thesis by auto
    next
      case (Some td)
      obtain token expression column len' where td: "td = (token, expression, column, len')"
        by (cases td) auto
      show ?thesis
      proof (cases "token = ''if''")
        case False
        with res len Some td
        have n: "format_loop gt ev fl lines (i + 1) remove eff = (Inr final, eff')" by simp
        from "1.IH"(2) [OF len Some td [symmetric] refl refl _ n] False
        show ?thesis by auto
      next
        case True
        obtain r eff1 where p: "parseIf gt ev fl lines i False eff = (r, eff1)"
          by (cases "parseIf gt ev fl lines i False eff") auto
        show ?thesis
        proof (cases r)
          case (Inl err)
          with res len Some td True p show ?thesis by simp
        next
          case (Inr b)
          obtain e rm where b: "b = (e, rm)" by (cases b) auto
          from parseIf_end [OF p [unfolded Inr b]] have e: "i \<le> e" "e < length lines" by simp_all
          from parseIf_within [OF p [unfolded Inr b]] have rm: "set rm \<subseteq> {i..e}" .
          from res len Some td True p Inr b
          have n: "format_loop gt ev fl lines (e + 1) (remove @ rm) eff1 = (Inr final, eff')"
            by simp
          from "1.IH"(3) [OF len Some td [symmetric] refl refl _ p [symmetric] Inr b [symmetric] n]
            True
          have "set final \<subseteq> set (remove @ rm) \<union> {e + 1..<length lines}" by simp
          with rm e show ?thesis by (fastforce simp: subset_iff)
        qed
      qed
    qed
  qed
qed

section \<open>Warnings and errors in line order\<close>

lemma later_than_simps [simp]:
  "later_than n []"
  "later_than n (m # ws) \<longleftrightarrow> n < loc_line (msg_location m) \<and> later_than n ws"
  "later_than n (ws @ ws') \<longleftrightarrow> later_than n ws \<and> later_than n ws'"
  by (auto simp: later_than_def)

lemma later_than_mono: "later_than n ws \<Longrightarrow> n' \<le> n \<Longrightarrow> later_than n' ws"
  by (auto simp: later_than_def)

lemma later_than_Suc: "later_than (Suc n) ws \<Longrightarrow> later_than n ws"
  by (auto simp: later_than_def)

lemma up_to_simps [simp]:
  "up_to n []"
  "up_to n (m # ws) \<longleftrightarrow> loc_line (msg_location m) \<le> n \<and> up_to n ws"
  "up_to n (ws @ ws') \<longleftrightarrow> up_to n ws \<and> up_to n ws'"
  by (auto simp: up_to_def)

lemma up_to_mono: "up_to n ws \<Longrightarrow> n \<le> n' \<Longrightarrow> up_to n' ws"
  by (auto simp: up_to_def)

lemma locate_line_eq [simp]: "err_line (locate gt lines start err) = err_line err"
  by (simp add: locate_def Let_def)

lemma parseIf_loop_trace:
  "parseIf_loop gt ev file lines start ignore i remove prune done eff = (res, eff') \<Longrightarrow>
   \<exists>ws. warnings eff' = warnings eff @ ws \<and> later_than i ws \<and>
     (case res of
        Inl err \<Rightarrow> (\<forall>j. err_line err = Some j \<longrightarrow> i \<le> j)
      | Inr (e, rm) \<Rightarrow> up_to (e + 1) ws)"
proof (induction gt ev "file" lines start ignore i remove prune "done" eff arbitrary: res eff'
       rule: parseIf_loop.induct)
  case (1 gt ev fl lines start ignore i remove prune dn eff)
  note IH = "1.IH"
  note res = "1.prems"
  show ?case
  proof (cases "i < length lines")
    case False
    with res show ?thesis by (auto simp: parseIf_loop_eof raise_def)
  next
    case len: True
    show ?thesis
    proof (cases "parseIf_body gt ev fl lines start ignore i remove prune dn eff")
      case (Continue remove' prune' done' eff1)
      from res have next_res:
        "parseIf_loop gt ev fl lines start ignore (i + 1) remove' prune' done' eff1 = (res, eff')"
        by (simp add: parseIf_loop_Continue [OF len Continue])
      from IH(1) [OF len Continue next_res] obtain ws1 where
        ws1: "warnings eff' = warnings eff1 @ ws1" "later_than (i + 1) ws1"
          "case res of Inl err \<Rightarrow> (\<forall>j. err_line err = Some j \<longrightarrow> i + 1 \<le> j)
           | Inr (e, rm) \<Rightarrow> up_to (e + 1) ws1"
        by blast
      from body_effects [OF Continue] obtain ws0 where
        ws0: "warnings eff1 = warnings eff @ ws0" "later_than i ws0" "up_to (i + 1) ws0"
        by (auto simp: later_than_def up_to_def)
      have "i \<le> e" if "res = Inr (e, rm)" for e rm
        using parseIf_loop_end [OF next_res [unfolded that]] by simp
      with ws0 ws1 have
        "warnings eff' = warnings eff @ (ws0 @ ws1) \<and> later_than i (ws0 @ ws1) \<and>
         (case res of Inl err \<Rightarrow> (\<forall>j. err_line err = Some j \<longrightarrow> i \<le> j)
          | Inr (e, rm) \<Rightarrow> up_to (e + 1) (ws0 @ ws1))"
        by (auto split: sum.splits intro: later_than_mono up_to_mono)
      then show ?thesis by blast
    next
      case (Recurse remove')
      obtain r eff1 where nested:
        "parseIf_loop gt ev fl lines i (prune \<or> ignore) i [] False False eff = (r, eff1)"
        by (cases "parseIf_loop gt ev fl lines i (prune \<or> ignore) i [] False False eff") auto
      from IH(2) [OF len Recurse nested] obtain ws1 where
        ws1: "warnings eff1 = warnings eff @ ws1" "later_than i ws1"
          "case r of Inl err \<Rightarrow> (\<forall>j. err_line err = Some j \<longrightarrow> i \<le> j)
           | Inr (e, rm) \<Rightarrow> up_to (e + 1) ws1"
        by blast
      show ?thesis
      proof (cases r)
        case (Inl err)
        with res len Recurse nested
        have "res = Inl (locate gt lines i err)" "eff' = eff1"
          by (simp_all add: parseIf_loop.simps [of gt ev fl lines start ignore i])
        with ws1 Inl show ?thesis by auto
      next
        case (Inr b)
        obtain e1 rm1 where b: "b = (e1, rm1)" by (cases b) auto
        from parseIf_loop_end [OF nested [unfolded Inr b]] have e1: "i \<le> e1" by simp
        from res len Recurse nested Inr b
        have next_res:
          "parseIf_loop gt ev fl lines start ignore (e1 + 1) (remove' @ rm1) prune dn eff1
             = (res, eff')"
          by (simp add: parseIf_loop.simps [of gt ev fl lines start ignore i])
        from IH(3) [OF len Recurse nested [symmetric] Inr b [symmetric] next_res]
        obtain ws2 where
          ws2: "warnings eff' = warnings eff1 @ ws2" "later_than (e1 + 1) ws2"
            "case res of Inl err \<Rightarrow> (\<forall>j. err_line err = Some j \<longrightarrow> e1 + 1 \<le> j)
             | Inr (e, rm) \<Rightarrow> up_to (e + 1) ws2"
          by blast
        have "e1 + 1 \<le> e" if "res = Inr (e, rm)" for e rm
          using parseIf_loop_end [OF next_res [unfolded that]] by simp
        with ws1 ws2 e1 Inr b have
          "warnings eff' = warnings eff @ (ws1 @ ws2) \<and> later_than i (ws1 @ ws2) \<and>
           (case res of Inl err \<Rightarrow> (\<forall>j. err_line err = Some j \<longrightarrow> i \<le> j)
            | Inr (e, rm) \<Rightarrow> up_to (e + 1) (ws1 @ ws2))"
          by (auto split: sum.splits intro: later_than_mono up_to_mono)
        then show ?thesis by blast
      qed
    next
      case (Return remove')
      with res len show ?thesis by (auto simp: parseIf_loop_Return [OF len Return])
    next
      case (Throw err eff1)
      from res have "res = Inl err" "eff' = eff1"
        by (simp_all add: parseIf_loop_Throw [OF len Throw])
      with body_effects [OF Throw] show ?thesis by auto
    qed
  qed
qed

lemma parseIf_trace:
  "parseIf gt ev file lines start ignore eff = (res, eff') \<Longrightarrow>
   \<exists>ws. warnings eff' = warnings eff @ ws \<and> later_than start ws \<and>
     (case res of
        Inl err \<Rightarrow> (\<forall>j. err_line err = Some j \<longrightarrow> start \<le> j)
      | Inr (e, rm) \<Rightarrow> up_to (e + 1) ws)"
proof -
  assume p: "parseIf gt ev file lines start ignore eff = (res, eff')"
  obtain r eff1 where l:
    "parseIf_loop gt ev file lines start ignore start [] False False eff = (r, eff1)"
    by (cases "parseIf_loop gt ev file lines start ignore start [] False False eff") auto
  from parseIf_loop_trace [OF l] p l show ?thesis
    by (auto simp: parseIf_def split: sum.splits)
qed

lemma format_loop_trace:
  "format_loop gt ev file lines i remove eff = (res, eff') \<Longrightarrow>
   \<exists>ws. warnings eff' = warnings eff @ ws \<and> later_than i ws \<and>
     (case res of
        Inl err \<Rightarrow> (\<forall>j. err_line err = Some j \<longrightarrow> i \<le> j)
      | Inr final \<Rightarrow> set remove \<subseteq> set final)"
proof (induction gt ev "file" lines i remove eff arbitrary: res eff' rule: format_loop.induct)
  case (1 gt ev fl lines i remove eff)
  note res = "1.prems" [unfolded format_loop.simps [of gt ev fl lines i]]
  show ?case
  proof (cases "i < length lines")
    case False
    with res show ?thesis by auto
  next
    case len: True
    have step: ?thesis
      if "format_loop gt ev fl lines (i + 1) remove eff = (res, eff')"
        and "\<exists>ws. warnings eff' = warnings eff @ ws \<and> later_than (i + 1) ws \<and>
               (case res of Inl err \<Rightarrow> (\<forall>j. err_line err = Some j \<longrightarrow> i + 1 \<le> j)
                | Inr final \<Rightarrow> set remove \<subseteq> set final)"
      using that(2) by (auto split: sum.splits dest: later_than_Suc)
    show ?thesis
    proof (cases "gt (lines ! i)")
      case None
      with res len have n: "format_loop gt ev fl lines (i + 1) remove eff = (res, eff')" by simp
      from step [OF n "1.IH"(1) [OF len None n]] show ?thesis .
    next
      case (Some td)
      obtain token expression column len' where td: "td = (token, expression, column, len')"
        by (cases td) auto
      show ?thesis
      proof (cases "token = ''if''")
        case False
        with res len Some td
        have n: "format_loop gt ev fl lines (i + 1) remove eff = (res, eff')" by simp
        from step [OF n "1.IH"(2) [OF len Some td [symmetric] refl refl _ n]] False
        show ?thesis by simp
      next
        case True
        obtain r eff1 where p: "parseIf gt ev fl lines i False eff = (r, eff1)"
          by (cases "parseIf gt ev fl lines i False eff") auto
        from parseIf_trace [OF p] obtain ws1 where
          ws1: "warnings eff1 = warnings eff @ ws1" "later_than i ws1"
            "case r of Inl err \<Rightarrow> (\<forall>j. err_line err = Some j \<longrightarrow> i \<le> j)
             | Inr (e, rm) \<Rightarrow> up_to (e + 1) ws1"
          by blast
        show ?thesis
        proof (cases r)
          case (Inl err)
          with res len Some td True p have "res = Inl err" "eff' = eff1" by simp_all
          with ws1 Inl show ?thesis by auto
        next
          case (Inr b)
          obtain e rm where b: "b = (e, rm)" by (cases b) auto
          from parseIf_end [OF p [unfolded Inr b]] have e: "i \<le> e" by simp
          from res len Some td True p Inr b
          have n: "format_loop gt ev fl lines (e + 1) (remove @ rm) eff1 = (res, eff')"
            by simp
          from "1.IH"(3) [OF len Some td [symmetric] refl refl _ p [symmetric] Inr b [symmetric] n]
            True
          obtain ws2 where
            ws2: "warnings eff' = warnings eff1 @ ws2" "later_than (e + 1) ws2"
              "case res of Inl err \<Rightarrow> (\<forall>j. err_line err = Some j \<longrightarrow> e + 1 \<le> j)
               | Inr final \<Rightarrow> set (remove @ rm) \<subseteq> set final"
            by auto
          with ws1 e have
            "warnings eff' = warnings eff @ (ws1 @ ws2) \<and> later_than i (ws1 @ ws2) \<and>
             (case res of Inl err \<Rightarrow> (\<forall>j. err_line err = Some j \<longrightarrow> i \<le> j)
              | Inr final \<Rightarrow> set remove \<subseteq> set final)"
            by (auto split: sum.splits intro: later_than_mono)
          then show ?thesis by blast
        qed
      qed
    qed
  qed
qed

section \<open>A run seen from its loop heads\<close>

lemma location_of_token:
  "gt (lines ! k) = Some (token, expression, column, len) \<Longrightarrow>
   location_of gt lines k =
     \<lparr>loc_file = None, loc_line = k + 1, loc_lineText = lines ! k,
      loc_column = Some column, loc_length = Some len\<rparr>"
  by (simp add: location_of_def)

lemma locate_again:
  "(locate gt lines s err)\<lparr>err_location := Some loc\<rparr> = err\<lparr>err_location := Some loc\<rparr>"
  by (simp add: locate_def Let_def)

lemma run_of_Frame_Inl:
  assumes "parseIf_loop gt ev file lines start ignore i remove prune done eff = (Inl err, eff1)"
    and "run_of gt ev file lines eff0 (Frame start ignore i remove prune done eff)"
  shows "\<exists>loc. format_loop gt ev file lines 0 [] eff0
                   = (Inl (err\<lparr>err_location := Some loc\<rparr>), eff1) \<and>
                 (\<forall>k. err_line err = Some k \<longrightarrow> loc = location_of gt lines k)"
  using assms by simp

lemma run_of_Frame_Inr:
  assumes "parseIf_loop gt ev file lines start ignore i remove prune done eff
             = (Inr (e, rm), eff1)"
    and "run_of gt ev file lines eff0 (Frame start ignore i remove prune done eff)"
    and "format_loop gt ev file lines 0 [] eff0 = (res, eff2)"
  shows "(\<exists>ws. warnings eff2 = warnings eff1 @ ws \<and> later_than (e + 1) ws) \<and>
         (case res of
            Inl err \<Rightarrow> (\<forall>j. err_line err = Some j \<longrightarrow> e < j)
          | Inr final \<Rightarrow> set rm \<subseteq> set final)"
  using assms by simp

lemma reached_run_of:
  "reached gt ev file lines eff0 p \<Longrightarrow> run_of gt ev file lines eff0 p"
proof (induction rule: reached.induct)
  case reached_start
  show ?case by simp
next
  case (reached_top_plain i remove eff)
  then show ?case by (simp add: format_loop.simps [of gt ev "file" lines i])
next
  case (reached_top_other i remove eff token expression column len)
  then show ?case by (simp add: format_loop.simps [of gt ev "file" lines i])
next
  case (reached_top_if i remove eff expression column len)
  let ?run = "format_loop gt ev file lines 0 [] eff0"
  from reached_top_if.IH have run: "?run = format_loop gt ev file lines i remove eff" by simp
  obtain r eff1 where l:
    "parseIf_loop gt ev file lines i False i [] False False eff = (r, eff1)"
    by (cases "parseIf_loop gt ev file lines i False i [] False False eff") auto
  show ?case
  proof (cases r)
    case (Inl err)
    with l reached_top_if.hyps run
    have "?run = (Inl (locate gt lines i err), eff1)"
      by (simp add: format_loop.simps [of gt ev "file" lines i] parseIf_def)
    then show ?thesis
      using l Inl by (auto simp: locate_def Let_def)
  next
    case (Inr b)
    obtain e rm where b: "b = (e, rm)" by (cases b) auto
    from l Inr b reached_top_if.hyps run
    have rest: "?run = format_loop gt ev file lines (e + 1) (remove @ rm) eff1"
      by (simp add: format_loop.simps [of gt ev "file" lines i] parseIf_def)
    obtain res eff2 where r2: "format_loop gt ev file lines (e + 1) (remove @ rm) eff1 = (res, eff2)"
      by (cases "format_loop gt ev file lines (e + 1) (remove @ rm) eff1") auto
    from format_loop_trace [OF r2] show ?thesis
      using l Inr b rest r2 by (auto split: sum.splits)
  qed
next
  case (reached_top_resume i remove eff expression column len e rm eff')
  then show ?case by (simp add: format_loop.simps [of gt ev "file" lines i])
next
  case (reached_continue start ignore i remove prune dn eff remove' prune' done' eff')
  then show ?case by (simp add: parseIf_loop_Continue)
next
  case (reached_recurse start ignore i remove prune dn eff remove')
  let ?run = "format_loop gt ev file lines 0 [] eff0"
  note parent = reached_recurse.IH
  obtain r eff1 where l:
    "parseIf_loop gt ev file lines i (prune \<or> ignore) i [] False False eff = (r, eff1)"
    by (cases "parseIf_loop gt ev file lines i (prune \<or> ignore) i [] False False eff") auto
  show ?case
  proof (cases r)
    case (Inl err)
    with l reached_recurse.hyps
    have "parseIf_loop gt ev file lines start ignore i remove prune dn eff
            = (Inl (locate gt lines i err), eff1)"
      by (simp add: parseIf_loop_Recurse parseIf_def)
    from run_of_Frame_Inl [OF this parent]
    show ?thesis using l Inl by (simp add: locate_again)
  next
    case (Inr b)
    obtain e1 rm1 where b: "b = (e1, rm1)" by (cases b) auto
    from l Inr b reached_recurse.hyps
    have up: "parseIf_loop gt ev file lines start ignore i remove prune dn eff
            = parseIf_loop gt ev file lines start ignore (e1 + 1) (remove' @ rm1) prune dn eff1"
      by (simp add: parseIf_loop_Recurse parseIf_def)
    obtain rp effp where lp:
      "parseIf_loop gt ev file lines start ignore (e1 + 1) (remove' @ rm1) prune dn eff1
         = (rp, effp)"
      by (cases "parseIf_loop gt ev file lines start ignore (e1 + 1) (remove' @ rm1) prune dn eff1")
        auto
    from parseIf_loop_trace [OF lp] obtain wsp where
      wsp: "warnings effp = warnings eff1 @ wsp" "later_than (e1 + 1) wsp"
        "case rp of Inl err \<Rightarrow> (\<forall>j. err_line err = Some j \<longrightarrow> e1 + 1 \<le> j)
         | Inr (e, rm) \<Rightarrow> up_to (e + 1) wsp"
      by blast
    obtain res eff2 where run: "?run = (res, eff2)" by (cases ?run) auto
    have "(\<exists>ws. warnings eff2 = warnings eff1 @ ws \<and> later_than (e1 + 1) ws) \<and>
          (case res of
             Inl err \<Rightarrow> (\<forall>j. err_line err = Some j \<longrightarrow> e1 < j)
           | Inr final \<Rightarrow> set rm1 \<subseteq> set final)"
    proof (cases rp)
      case (Inl errp)
      from run_of_Frame_Inl [OF up [unfolded lp Inl] parent] run
      obtain loc where "res = Inl (errp\<lparr>err_location := Some loc\<rparr>)" "eff2 = effp"
        by auto
      with wsp Inl show ?thesis by auto
    next
      case (Inr bp)
      obtain e rm where bp: "bp = (e, rm)" by (cases bp) auto
      from parseIf_loop_end [OF lp [unfolded Inr bp]] have e: "e1 + 1 \<le> e" by simp
      from parseIf_loop_directives [OF lp [unfolded Inr bp]] have sub: "set rm1 \<subseteq> set rm"
        by simp
      from run_of_Frame_Inr [OF up [unfolded lp Inr bp] parent run]
      obtain ws where ws: "warnings eff2 = warnings effp @ ws" "later_than (e + 1) ws"
        and out: "case res of Inl err \<Rightarrow> (\<forall>j. err_line err = Some j \<longrightarrow> e < j)
                  | Inr final \<Rightarrow> set rm \<subseteq> set final"
        by blast
      from ws wsp e have "warnings eff2 = warnings eff1 @ (wsp @ ws)"
        "later_than (e1 + 1) (wsp @ ws)"
        by (auto intro: later_than_mono)
      moreover from out e sub
      have "case res of Inl err \<Rightarrow> (\<forall>j. err_line err = Some j \<longrightarrow> e1 < j)
            | Inr final \<Rightarrow> set rm1 \<subseteq> set final"
        by (auto split: sum.splits)
      ultimately show ?thesis by blast
    qed
    with l Inr b run show ?thesis by simp
  qed
next
  case (reached_resume start ignore i remove prune dn eff remove' e rm eff')
  then show ?case by (simp add: parseIf_loop_Recurse)
qed

lemma reached_warnings:
  "reached gt ev file lines eff0 p \<Longrightarrow> warnings eff0 = [] \<Longrightarrow>
   up_to (point_index p) (warnings (point_effects p))"
proof (induction rule: reached.induct)
  case reached_start
  then show ?case by simp
next
  case (reached_top_plain i remove eff)
  then show ?case using up_to_mono [of i "warnings eff" "i + 1"] by simp
next
  case (reached_top_other i remove eff token expression column len)
  then show ?case using up_to_mono [of i "warnings eff" "i + 1"] by simp
next
  case (reached_top_if i remove eff expression column len)
  then show ?case by simp
next
  case (reached_top_resume i remove eff expression column len e rm eff')
  from parseIf_trace [OF reached_top_resume.hyps(4)] obtain ws where
    "warnings eff' = warnings eff @ ws" "up_to (e + 1) ws"
    by auto
  moreover from parseIf_end [OF reached_top_resume.hyps(4)] reached_top_resume.IH
    reached_top_resume.prems
  have "up_to (e + 1) (warnings eff)"
    using up_to_mono [of i "warnings eff" "e + 1"] by simp
  ultimately show ?case by simp
next
  case (reached_continue start ignore i remove prune dn eff remove' prune' done' eff')
  from reached_continue.IH reached_continue.prems
  have "up_to (i + 1) (warnings eff)"
    using up_to_mono [of i "warnings eff" "i + 1"] by simp
  with body_effects [OF reached_continue.hyps(3)]
  show ?case by auto
next
  case (reached_recurse start ignore i remove prune dn eff remove')
  then show ?case by simp
next
  case (reached_resume start ignore i remove prune dn eff remove' e rm eff')
  from parseIf_trace [OF reached_resume.hyps(4)] obtain ws where
    "warnings eff' = warnings eff @ ws" "up_to (e + 1) ws"
    by auto
  moreover from parseIf_end [OF reached_resume.hyps(4)] reached_resume.IH
    reached_resume.prems
  have "up_to (e + 1) (warnings eff)"
    using up_to_mono [of i "warnings eff" "e + 1"] by simp
  ultimately show ?case by simp
qed

lemma reached_first_pass:
  assumes "0 < length lines"
    and "gt (lines ! 0) = Some (''if'', expression, column, len)"
    and "parseIf_body gt ev file lines 0 False 0 [] False False eff0 = Continue r p d e"
  shows "reached gt ev file lines eff0 (Frame 0 False 1 r p d e)"
proof -
  have "reached gt ev file lines eff0 (Top 0 [] eff0)"
    by (rule reached_start)
  from reached_top_if [OF this assms(1,2)]
  have "reached gt ev file lines eff0 (Frame 0 False 0 [] False False eff0)" .
  from reached_continue [OF this assms(1,3)] show ?thesis by simp
qed

lemma filter_up_to:
  "up_to n ws \<Longrightarrow> filter (\<lambda>m. loc_line (msg_location m) = Suc n) ws = []"
  by (induction ws) auto

lemma filter_later_than:
  "later_than (Suc n) ws \<Longrightarrow> filter (\<lambda>m. loc_line (msg_location m) = Suc n) ws = []"
  by (induction ws) auto

lemma reached_removed_before:
  "reached gt ev file lines eff0 p \<Longrightarrow> removed_before p"
proof (induction rule: reached.induct)
  case (reached_top_resume i remove eff expression column len e rm eff')
  from parseIf_within [OF reached_top_resume.hyps(4)] parseIf_end [OF reached_top_resume.hyps(4)]
    reached_top_resume.IH
  show ?case by fastforce
qed auto

section \<open>Line count and rendering\<close>

lemma prepend_char_Cons [simp]: "prepend_char c (l # ls) = (c # l) # ls"
  by (simp add: prepend_char_def)

lemma split_lines_not_Nil: "split_lines s \<noteq> []"
  by (induction s) (auto simp: prepend_char_def)

lemma split_lines_no_newline: "l \<in> set (split_lines s) \<Longrightarrow> CHR 0x0A \<notin> set l"
proof (induction s arbitrary: l)
  case Nil
  then show ?case by simp
next
  case (Cons c cs)
  obtain h t where ht: "split_lines cs = h # t"
    using split_lines_not_Nil [of cs] by (cases "split_lines cs") auto
  from Cons.IH [of h] ht have h: "CHR 0x0A \<notin> set h" by simp
  from Cons.IH ht have t: "\<And>x. x \<in> set t \<Longrightarrow> CHR 0x0A \<notin> set x" by simp
  from Cons.prems ht h t show ?case by (auto split: if_splits)
qed

lemma split_lines_append_line:
  "CHR 0x0A \<notin> set l \<Longrightarrow> split_lines (l @ CHR 0x0A # s) = l # split_lines s"
  by (induction l) auto

lemma split_lines_line: "CHR 0x0A \<notin> set l \<Longrightarrow> split_lines l = [l]"
  by (induction l) auto

lemma split_join_lines:
  "ls \<noteq> [] \<Longrightarrow> (\<forall>l \<in> set ls. CHR 0x0A \<notin> set l) \<Longrightarrow> split_lines (join_lines ls) = ls"
proof (induction ls rule: join_lines.induct)
  case 1
  then show ?case by simp
next
  case (2 l)
  then show ?case by (simp add: split_lines_line)
next
  case (3 l m ls)
  then show ?case by (simp add: split_lines_append_line)
qed

lemma length_render: "length (render fill remove lines) = length lines"
  by (simp add: render_def)

lemma render_nth:
  "i < length lines \<Longrightarrow>
   render fill remove lines ! i =
     (if i \<in> set remove then (if fill then replicate (length (lines ! i)) CHR 0x20 else ''//'' @ lines ! i)
      else lines ! i)"
  by (simp add: render_def nth_enumerate_eq)

lemma render_no_newline:
  assumes "\<forall>l \<in> set lines. CHR 0x0A \<notin> set l"
  shows "\<forall>l \<in> set (render fill remove lines). CHR 0x0A \<notin> set l"
proof
  fix l assume "l \<in> set (render fill remove lines)"
  then obtain i where i: "i < length lines" and l: "l = render fill remove lines ! i"
    by (auto simp: in_set_conv_nth length_render)
  from i assms have "CHR 0x0A \<notin> set (lines ! i)" by simp
  with i l show "CHR 0x0A \<notin> set l" by (auto simp: render_nth)
qed

lemma split_lines_format:
  assumes "format fill gt ev data file eff = (Inr out, eff')"
  shows "\<exists>remove. format_loop gt ev file (split_lines data) 0 [] eff = (Inr remove, eff') \<and>
           split_lines out = render fill remove (split_lines data)"
proof -
  from assms obtain remove where
    loop: "format_loop gt ev file (split_lines data) 0 [] eff = (Inr remove, eff')" and
    out: "out = join_lines (render fill remove (split_lines data))"
    by (auto simp: format_def Let_def split: prod.splits sum.splits)
  have "render fill remove (split_lines data) \<noteq> []"
    using split_lines_not_Nil [of data] length_render [of fill remove "split_lines data"]
    by (metis length_0_conv)
  moreover have "\<forall>l \<in> set (render fill remove (split_lines data)). CHR 0x0A \<notin> set l"
    by (rule render_no_newline) (simp add: split_lines_no_newline)
  ultimately have "split_lines out = render fill remove (split_lines data)"
    unfolding out by (rule split_join_lines)
  with loop show ?thesis by blast
qed

section \<open>Runs on concrete lines\<close>

lemmas run_simps = parseIf_loop.simps format_loop.simps parseIf_def parseIf_body_def
  evalExpression_def branch_switch_def locate_def location_of_def raise_def warn_def Let_def
  sample_engine_def no_effects_def

lemma token_if_true: "getToken True ''///#if true'' = Some (''if'', ''true'', 0, 11)"
  by code_simp

lemma token_if_false: "getToken True ''///#if false'' = Some (''if'', ''false'', 0, 12)"
  by code_simp

lemma token_else: "getToken True ''///#else'' = Some (''else'', [], 0, 8)"
  by code_simp

lemma token_endif: "getToken True ''///#endif'' = Some (''endif'', [], 0, 9)"
  by code_simp

lemma token_a: "getToken True ''a'' = None"
  by code_simp

lemma token_b: "getToken True ''b'' = None"
  by code_simp

lemmas token_simps = token_if_true token_if_false token_else token_endif token_a token_b

text \<open>The example of the specification: five lines, the first branch inactive.\<close>

lemma run_if_else:
  "format_loop (getToken True) sample_engine ''a.js''
     [''///#if false'', ''a'', ''///#else'', ''b'', ''///#endif''] 0 [] no_effects
   = (Inr [0, 1, 2, 2, 4], \<lparr>warnings = [], evals = [(''false'', 0)]\<rparr>)"
  by (simp add: run_simps token_simps)

lemma split_if_else:
  "split_lines ''///#if false\<newline>a\<newline>///#else\<newline>b\<newline>///#endif''
   = [''///#if false'', ''a'', ''///#else'', ''b'', ''///#endif'']"
  by simp

lemma format_if_else:
  "format False (getToken True) sample_engine
     ''///#if false\<newline>a\<newline>///#else\<newline>b\<newline>///#endif'' ''a.js'' no_effects
   = (Inr ''/////#if false\<newline>//a\<newline>/////#else\<newline>b\<newline>/////#endif'',
      \<lparr>warnings = [], evals = [(''false'', 0)]\<rparr>)"
  unfolding format_def split_if_else Let_def run_if_else
  by (simp add: render_def enumerate_eq_zip upt_rec)

lemma format_if_else_spaces:
  "format True (getToken True) sample_engine
     ''///#if false\<newline>a\<newline>///#else\<newline>b\<newline>///#endif'' ''a.js'' no_effects
   = (Inr ''            \<newline> \<newline>        \<newline>b\<newline>         '',
      \<lparr>warnings = [], evals = [(''false'', 0)]\<rparr>)"
  unfolding format_def split_if_else Let_def run_if_else
  by (simp add: render_def enumerate_eq_zip upt_rec)

lemma token_elif_boom: "getToken True ''///#elif boom'' = Some (''elif'', ''boom'', 0, 13)"
  by code_simp

lemma token_if_boom: "getToken True ''///#if boom'' = Some (''if'', ''boom'', 0, 11)"
  by code_simp

lemma token_x: "getToken True ''x'' = None"
  by code_simp

lemma token_elif_quoted:
  "getToken True (''///#elif X === '' @ [CHR 0x22, CHR ''a'', CHR 0x22])
     = Some (''elif'', ''X === '' @ [CHR 0x22, CHR ''a'', CHR 0x22], 0, 18)"
  by code_simp

lemma token_warning_hi: "getToken True ''///#warning hi'' = Some (''warning'', ''hi'', 0, 14)"
  by code_simp

lemma token_error_stop: "getToken True ''///#error stop'' = Some (''error'', ''stop'', 0, 14)"
  by code_simp

lemma split_if_error:
  "split_lines ''///#if true\<newline>///#error stop\<newline>///#endif''
     = [''///#if true'', ''///#error stop'', ''///#endif'']"
  by simp

lemma reached_if_error:
  "reached (getToken True) sample_engine ''a.js''
     (split_lines ''///#if true\<newline>///#error stop\<newline>///#endif'')
     \<lparr>warnings = [], evals = []\<rparr>
     (Frame 0 False 1 [0] False True \<lparr>warnings = [], evals = [(''true'', 0)]\<rparr>)"
proof -
  let ?lines = "[''///#if true'', ''///#error stop'', ''///#endif'']"
  let ?r = "reached (getToken True) sample_engine ''a.js'' ?lines \<lparr>warnings = [], evals = []\<rparr>"
  have "?r (Top 0 [] \<lparr>warnings = [], evals = []\<rparr>)"
    by (rule reached_start)
  then have "?r (Frame 0 False 0 [] False False \<lparr>warnings = [], evals = []\<rparr>)"
    by (rule reached_top_if [where expression = "''true''" and column = 0 and len = 11])
       (simp_all add: token_if_true)
  then have "?r (Frame 0 False (0 + 1) [0] False True \<lparr>warnings = [], evals = [(''true'', 0)]\<rparr>)"
    by (rule reached_continue) (simp_all add: run_simps token_if_true)
  then show ?thesis
    unfolding split_if_error by simp
qed

lemma reached_if_warning:
  "reached (getToken True) sample_engine ''a.js''
     [''///#if true'', ''///#warning hi'', ''///#endif''] no_effects
     (Frame 0 False 1 [0] False True \<lparr>warnings = [], evals = [(''true'', 0)]\<rparr>)"
  by (rule reached_first_pass [where expression = "''true''" and column = 0 and len = 11])
     (simp_all add: run_simps token_if_true)

lemma run_if_warning:
  "format_loop (getToken True) sample_engine ''a.js''
     [''///#if true'', ''///#warning hi'', ''///#endif''] 0 [] no_effects
   = (Inr [0, 1, 2],
      \<lparr>warnings =
         [\<lparr>msg_text = ''hi'',
           msg_location =
             \<lparr>loc_file = Some ''a.js'', loc_line = 2, loc_lineText = ''///#warning hi'',
              loc_column = Some 0, loc_length = Some 14\<rparr>\<rparr>],
       evals = [(''true'', 0)]\<rparr>)"
  by (simp add: run_simps token_if_true token_warning_hi token_endif)

lemma reached_if_false_error:
  "reached (getToken True) sample_engine ''a.js''
     [''///#if false'', ''///#error stop'', ''///#endif''] no_effects
     (Frame 0 False 1 [0] True False \<lparr>warnings = [], evals = [(''false'', 0)]\<rparr>)"
  by (rule reached_first_pass [where expression = "''false''" and column = 0 and len = 12])
     (simp_all add: run_simps token_if_false)

lemma run_if_false_error:
  "format_loop (getToken True) sample_engine ''a.js''
     [''///#if false'', ''///#error stop'', ''///#endif''] 0 [] no_effects
   = (Inr [0, 1, 1, 2, 2], \<lparr>warnings = [], evals = [(''false'', 0)]\<rparr>)"
  by (simp add: run_simps token_if_false token_error_stop token_endif)

lemma token_warning_no: "getToken True ''///#warning no'' = Some (''warning'', ''no'', 0, 14)"
  by code_simp

lemma split_stray_warning:
  "split_lines ''///#warning hi\<newline>///#if false\<newline>///#warning no\<newline>///#endif''
     = [''///#warning hi'', ''///#if false'', ''///#warning no'', ''///#endif'']"
  by simp

lemma parseIf_stray_warning:
  "parseIf (getToken True) sample_engine ''a.js''
     [''///#warning hi'', ''///#if false'', ''///#warning no'', ''///#endif''] 1 False no_effects
   = (Inr (3, [1, 2, 2, 3, 3]), \<lparr>warnings = [], evals = [(''false'', 1)]\<rparr>)"
  by (simp add: run_simps token_if_false token_warning_no token_endif)

lemma run_stray_warning:
  "format_loop (getToken True) sample_engine ''a.js''
     [''///#warning hi'', ''///#if false'', ''///#warning no'', ''///#endif''] 0 [] no_effects
   = (Inr [1, 2, 2, 3, 3], \<lparr>warnings = [], evals = [(''false'', 1)]\<rparr>)"
  by (simp add: run_simps token_warning_hi token_if_false token_warning_no token_endif)

lemma format_stray_warning:
  "format False (getToken True) sample_engine
     ''///#warning hi\<newline>///#if false\<newline>///#warning no\<newline>///#endif'' ''a.js''
     no_effects
   = (Inr ''///#warning hi\<newline>/////#if false\<newline>/////#warning no\<newline>/////#endif'',
      \<lparr>warnings = [], evals = [(''false'', 1)]\<rparr>)"
  unfolding format_def split_stray_warning Let_def run_stray_warning
  by (simp add: render_def enumerate_eq_zip upt_rec)

lemma split_stray_warning_out:
  "split_lines ''///#warning hi\<newline>/////#if false\<newline>/////#warning no\<newline>/////#endif''
     = [''///#warning hi'', ''/////#if false'', ''/////#warning no'', ''/////#endif'']"
  by simp

lemma reached_stray_warning:
  "reached (getToken True) sample_engine ''a.js''
     [''///#warning hi'', ''///#if false'', ''///#warning no'', ''///#endif''] no_effects
     (Top 1 [] no_effects)"
proof -
  have "reached (getToken True) sample_engine ''a.js''
     [''///#warning hi'', ''///#if false'', ''///#warning no'', ''///#endif''] no_effects
     (Top (0 + 1) [] no_effects)"
    by (rule reached_top_other [OF reached_start, where token = "''warning''"
          and expression = "''hi''" and column = 0 and len = 14])
       (simp_all add: token_warning_hi)
  then show ?thesis by simp
qed

text \<open>
  Claim C1. Whenever \<^verbatim>\<open>format\<close> returns a text (it does not throw), that text has
  as many lines, split at line feeds, as the input text.
\<close>

theorem format_line_count:
  "format fillWithSpaces gt ev data file eff = (Inr out, eff') \<Longrightarrow>
   length (split_lines out) = length (split_lines data)"
  using split_lines_format [of fillWithSpaces gt ev data "file" eff out eff']
  by (auto simp: length_render)

theorem format_line_count_witness:
  "format False (getToken True) sample_engine
     ''///#if false\<newline>a\<newline>///#else\<newline>b\<newline>///#endif'' ''a.js'' no_effects
   = (Inr ''/////#if false\<newline>//a\<newline>/////#else\<newline>b\<newline>/////#endif'',
      \<lparr>warnings = [], evals = [(''false'', 0)]\<rparr>)
   \<and> length (split_lines
         ''/////#if false\<newline>//a\<newline>/////#else\<newline>b\<newline>/////#endif'')
     = length (split_lines ''///#if false\<newline>a\<newline>///#else\<newline>b\<newline>///#endif'')"
  using format_line_count [OF format_if_else] format_if_else by blast

text \<open>
  Claim C2. When \<^verbatim>\<open>format\<close> returns, line \<open>i\<close> of the output is, for an index in
  the accumulated \<^verbatim>\<open>remove\<close> list, as many spaces as the input line is long when
  \<^verbatim>\<open>fillWithSpaces\<close> is set and the input line behind \<^verbatim>\<open>//\<close> otherwise; for an
  index not in the list it is the input line.
\<close>

theorem format_renders_lines:
  "format fillWithSpaces gt ev data file eff = (Inr out, eff') \<Longrightarrow>
   \<exists>remove. format_loop gt ev file (split_lines data) 0 [] eff = (Inr remove, eff') \<and>
     (\<forall>i < length (split_lines data).
        split_lines out ! i =
          (if i \<in> set remove then
             (if fillWithSpaces then replicate (length (split_lines data ! i)) CHR 0x20
              else ''//'' @ split_lines data ! i)
           else split_lines data ! i))"
  using split_lines_format [of fillWithSpaces gt ev data "file" eff out eff']
  by (auto simp: render_nth)

theorem format_renders_lines_witness:
  "format True (getToken True) sample_engine
     ''///#if false\<newline>a\<newline>///#else\<newline>b\<newline>///#endif'' ''a.js'' no_effects
   = (Inr ''            \<newline> \<newline>        \<newline>b\<newline>         '',
      \<lparr>warnings = [], evals = [(''false'', 0)]\<rparr>)
   \<and> split_lines ''            \<newline> \<newline>        \<newline>b\<newline>         '' ! 1 = '' ''
   \<and> split_lines ''            \<newline> \<newline>        \<newline>b\<newline>         '' ! 3 = ''b''"
proof -
  from format_renders_lines [OF format_if_else_spaces]
  obtain remove where
    loop: "format_loop (getToken True) sample_engine ''a.js''
             (split_lines ''///#if false\<newline>a\<newline>///#else\<newline>b\<newline>///#endif'') 0 []
             no_effects
           = (Inr remove, \<lparr>warnings = [], evals = [(''false'', 0)]\<rparr>)" and
    lines: "\<And>i. i < length (split_lines
                 ''///#if false\<newline>a\<newline>///#else\<newline>b\<newline>///#endif'') \<Longrightarrow>
       split_lines ''            \<newline> \<newline>        \<newline>b\<newline>         '' ! i =
         (if i \<in> set remove then
            (if True then
               replicate (length (split_lines
                 ''///#if false\<newline>a\<newline>///#else\<newline>b\<newline>///#endif'' ! i)) CHR 0x20
             else ''//'' @ split_lines
                 ''///#if false\<newline>a\<newline>///#else\<newline>b\<newline>///#endif'' ! i)
          else split_lines
                 ''///#if false\<newline>a\<newline>///#else\<newline>b\<newline>///#endif'' ! i)"
    by blast
  from loop have remove: "remove = [0, 1, 2, 2, 4]"
    unfolding split_if_else run_if_else by simp
  from lines [of 1] lines [of 3] show ?thesis
    unfolding remove split_if_else
    by (simp add: format_if_else_spaces)
qed

section \<open>Evaluations and locations that differ from the claims\<close>

text \<open>
  Four facts about single steps, for every matcher and engine: an \<^verbatim>\<open>elseif\<close> or
  \<^verbatim>\<open>elif\<close> met in the branch that matched (\<^verbatim>\<open>done\<close> set, \<^verbatim>\<open>prune\<close> not) is
  evaluated and its value dropped; the \<^verbatim>\<open>if\<close> of a frame entered with \<^verbatim>\<open>ignore\<close>
  set is evaluated; an error without \<^verbatim>\<open>line\<close> that passes the \<^verbatim>\<open>catch\<close> blocks
  of two frames is located at the outer one; and an error of \<^verbatim>\<open>new Function\<close>
  leaves \<^verbatim>\<open>evalExpression\<close> without \<^verbatim>\<open>line\<close>.
\<close>

lemma body_elif_after_match:
  assumes tok: "gt (lines ! i) = Some (token, expression, column, len)"
    and elif: "token = ''elseif'' \<or> token = ''elif''"
  shows "parseIf_body gt ev file lines start False i remove False True eff =
           (case evalExpression ev expression i eff of
              (Inl err, eff') \<Rightarrow> Throw err eff'
            | (Inr exp, eff') \<Rightarrow> Continue (remove @ [i]) True True eff')"
proof -
  have "?thesis" if t: "token = ''elseif''"
    using tok unfolding t
    by (simp add: parseIf_body_def branch_switch_def Let_def split: prod.split sum.split)
  moreover have "?thesis" if t: "token = ''elif''"
    using tok unfolding t
    by (simp add: parseIf_body_def branch_switch_def Let_def split: prod.split sum.split)
  ultimately show ?thesis using elif by blast
qed

lemma body_if_of_ignored_frame:
  assumes tok: "gt (lines ! start) = Some (''if'', expression, column, len)"
  shows "parseIf_body gt ev file lines start True start [] False False eff =
           (case evalExpression ev expression start eff of
              (Inl err, eff') \<Rightarrow> Throw err eff'
            | (Inr exp, eff') \<Rightarrow> Continue [start, start] (\<not> exp) exp eff')"
  using tok by (simp add: parseIf_body_def Let_def split: prod.split sum.split)

lemma locate_outer_frame:
  "err_line err = None \<Longrightarrow>
   locate gt lines outer (locate gt lines inner err)
     = err\<lparr>err_location := Some (location_of gt lines outer)\<rparr>"
  by (simp add: locate_def Let_def)

lemma evalExpression_Construct_Throws:
  "ev (evals eff) expression = Construct_Throws m \<Longrightarrow>
   evalExpression ev expression line eff
     = (Inl \<lparr>err_message = m, err_line = None, err_location = None\<rparr>,
        eff\<lparr>evals := evals eff @ [(expression, line)]\<rparr>)"
  by (simp add: evalExpression_def raise_def Let_def)

text \<open>
  Claim C3 says that once \<^verbatim>\<open>done\<close> is set, no later \<^verbatim>\<open>elseif\<close> or \<^verbatim>\<open>elif\<close>
  of the chain reaches the evaluator. The guard in front of the second \<^verbatim>\<open>switch\<close> is
  \<^verbatim>\<open>ignore || (prune && done)\<close>: at the first \<^verbatim>\<open>elif\<close> behind the branch that
  matched, \<^verbatim>\<open>done\<close> is set and \<^verbatim>\<open>prune\<close> is not, so the expression is evaluated
  and its value dropped by \<^verbatim>\<open>prune = done || !exp\<close>. In the run below the
  expression \<^verbatim>\<open>boom\<close> at index 2 is evaluated (the last entry of \<open>evals\<close>) and its
  error ends the run.
\<close>

theorem elif_after_match_is_evaluated:
  "format_loop (getToken True) sample_engine ''a.js''
     [''///#if true'', ''a'', ''///#elif boom'', ''b'', ''///#endif''] 0 [] no_effects
   = (Inl \<lparr>err_message = ''boom is not defined'', err_line = Some 2,
           err_location = Some
             \<lparr>loc_file = None, loc_line = 3, loc_lineText = ''///#elif boom'',
              loc_column = Some 0, loc_length = Some 13\<rparr>\<rparr>,
      \<lparr>warnings = [], evals = [(''true'', 0), (''boom'', 2)]\<rparr>)"
  by (simp add: run_simps token_simps token_elif_boom)

text \<open>
  Claim C4 says that the \<^verbatim>\<open>if\<close> of a frame entered with \<^verbatim>\<open>ignore\<close> set is not
  evaluated. The case \<^verbatim>\<open>"if"\<close> of the first \<^verbatim>\<open>switch\<close> calls
  \<^verbatim>\<open>evalExpression\<close> whenever \<^verbatim>\<open>i === start\<close>, before \<^verbatim>\<open>ignore\<close> is looked
  at. In the run below the inner \<^verbatim>\<open>if\<close> at index 1 lies in the inactive branch of
  the \<^verbatim>\<open>if\<close> at index 0; its expression is evaluated and its error ends the run.
\<close>

theorem ignored_if_is_evaluated:
  "format_loop (getToken True) sample_engine ''a.js''
     [''///#if false'', ''///#if boom'', ''///#endif'', ''///#endif''] 0 [] no_effects
   = (Inl \<lparr>err_message = ''boom is not defined'', err_line = Some 1,
           err_location = Some
             \<lparr>loc_file = None, loc_line = 2, loc_lineText = ''///#if boom'',
              loc_column = Some 0, loc_length = Some 11\<rparr>\<rparr>,
      \<lparr>warnings = [], evals = [(''false'', 0), (''boom'', 1)]\<rparr>)"
  by (simp add: run_simps token_simps token_if_boom)

text \<open>
  Claim C5 says that an \<^verbatim>\<open>if\<close> without \<^verbatim>\<open>endif\<close> is reported at the line of that
  \<^verbatim>\<open>if\<close>, also in a nested frame. The error has no \<^verbatim>\<open>line\<close>, so the \<^verbatim>\<open>catch\<close>
  block of every enclosing frame overwrites the location with its own \<^verbatim>\<open>start\<close>.
  In the run below the frame opened at index 3 (the fourth line) reaches the end of the
  lines. The message names index 3; the location is the second line, the \<^verbatim>\<open>if\<close> of
  the outer frame.
\<close>

theorem nested_unterminated_if_located_at_outer_if:
  "format_loop (getToken True) sample_engine ''a.js''
     [''x'', ''///#if true'', ''a'', ''///#if false''] 0 [] no_effects
   = (Inl \<lparr>err_message = ''Unterminated #if found on line 3'', err_line = None,
           err_location = Some
             \<lparr>loc_file = None, loc_line = 2, loc_lineText = ''///#if true'',
              loc_column = Some 0, loc_length = Some 11\<rparr>\<rparr>,
      \<lparr>warnings = [], evals = [(''true'', 1), (''false'', 3)]\<rparr>)"
  by (simp add: run_simps token_simps token_x show_nat.simps)

text \<open>
  Claim C6 says that every failure of an expression is reported at the line of its
  directive. \<^verbatim>\<open>new Function\<close> stands in front of \<^verbatim>\<open>try\<close>: an error it throws gets
  no \<^verbatim>\<open>line\<close> and is located at the \<^verbatim>\<open>start\<close> of the frame. In the run below
  the expression of the \<^verbatim>\<open>elif\<close> at index 1 (the second line) does not parse inside
  \<^verbatim>\<open>eval("...")\<close>; the location is the first line, the \<^verbatim>\<open>if\<close>.
\<close>

theorem elif_construction_error_located_at_if:
  "format_loop (getToken True) sample_engine ''a.js''
     [''///#if false'', ''///#elif X === '' @ [CHR 0x22, CHR ''a'', CHR 0x22], ''///#endif'']
     0 [] no_effects
   = (Inl \<lparr>err_message = ''missing ) after argument list'', err_line = None,
           err_location = Some
             \<lparr>loc_file = None, loc_line = 1, loc_lineText = ''///#if false'',
              loc_column = Some 0, loc_length = Some 12\<rparr>\<rparr>,
      \<lparr>warnings = [],
       evals = [(''false'', 0), (''X === '' @ [CHR 0x22, CHR ''a'', CHR 0x22], 1)]\<rparr>)"
  using token_elif_quoted
  by (simp add: run_simps token_simps)

text \<open>
  Claim C7. When the run arrives at an \<^verbatim>\<open>error\<close> or \<^verbatim>\<open>err\<close> directive in a frame
  that is neither pruning nor ignored, \<^verbatim>\<open>onLoad\<close> returns no contents but one error:
  its text is the text of the directive and its location is the line of the directive,
  counted from 1, with the column and length of the match.
\<close>

theorem error_directive_aborts:
  assumes at: "reached gt ev path (split_lines text) \<lparr>warnings = [], evals = []\<rparr>
                 (Frame start False i remove False done eff)"
    and len: "i < length (split_lines text)"
    and tok: "gt (split_lines text ! i) = Some (token, message, column, len)"
    and err: "token = ''error'' \<or> token = ''err''"
  shows "onLoad fillWithSpaces gt ev path text =
           Errors (warnings eff)
             \<lparr>msg_text = message,
              msg_location =
                \<lparr>loc_file = Some path, loc_line = i + 1, loc_lineText = split_lines text ! i,
                 loc_column = Some column, loc_length = Some len\<rparr>\<rparr>"
proof -
  let ?lines = "split_lines text"
  have "parseIf_loop gt ev path ?lines start False i remove False done eff
          = (Inl \<lparr>err_message = message, err_line = Some i, err_location = None\<rparr>, eff)"
    using len body_error_active [of gt "split_lines text" i token message column len, OF tok err]
    by (simp add: parseIf_loop_Throw)
  from run_of_Frame_Inl [OF this reached_run_of [OF at]]
  have "format_loop gt ev path ?lines 0 [] \<lparr>warnings = [], evals = []\<rparr>
          = (Inl \<lparr>err_message = message, err_line = Some i,
                  err_location = Some (location_of gt ?lines i)\<rparr>, eff)"
    by auto
  then show ?thesis
    by (simp add: onLoad_def format_def
        location_of_token [of gt "split_lines text" i token message column len, OF tok])
qed

theorem error_directive_aborts_witness:
  "reached (getToken True) sample_engine ''a.js''
     (split_lines ''///#if true\<newline>///#error stop\<newline>///#endif'')
     \<lparr>warnings = [], evals = []\<rparr>
     (Frame 0 False 1 [0] False True \<lparr>warnings = [], evals = [(''true'', 0)]\<rparr>)
   \<and> 1 < length (split_lines ''///#if true\<newline>///#error stop\<newline>///#endif'')
   \<and> getToken True (split_lines ''///#if true\<newline>///#error stop\<newline>///#endif'' ! 1)
       = Some (''error'', ''stop'', 0, 14)
   \<and> onLoad False (getToken True) sample_engine ''a.js''
         ''///#if true\<newline>///#error stop\<newline>///#endif''
       = Errors []
           \<lparr>msg_text = ''stop'',
            msg_location =
              \<lparr>loc_file = Some ''a.js'', loc_line = 2, loc_lineText = ''///#error stop'',
               loc_column = Some 0, loc_length = Some 14\<rparr>\<rparr>"
proof -
  have len: "1 < length (split_lines ''///#if true\<newline>///#error stop\<newline>///#endif'')"
    unfolding split_if_error by simp
  have tok: "getToken True (split_lines ''///#if true\<newline>///#error stop\<newline>///#endif'' ! 1)
               = Some (''error'', ''stop'', 0, 14)"
    unfolding split_if_error by (simp add: token_error_stop)
  from error_directive_aborts [OF reached_if_error len tok, of False] reached_if_error len tok
  show ?thesis
    unfolding split_if_error by simp
qed

text \<open>
  Claim C8. When the run arrives at a \<^verbatim>\<open>warning\<close> or \<^verbatim>\<open>warn\<close> directive, the pass
  through the loop body leaves \<^verbatim>\<open>prune\<close> and \<^verbatim>\<open>done\<close> as they are and adds
  only the index of the directive to \<^verbatim>\<open>remove\<close>. In an active branch the warnings
  that the run ends with, starting from none, hold exactly one message for the line of
  the directive (counted from 1), with the text of the directive, its line, column and
  length; in a pruned or ignored branch they hold none for that line.
\<close>

theorem warning_directive:
  assumes at: "reached gt ev file lines eff0 (Frame start ignore i remove prune done eff)"
    and fresh: "warnings eff0 = []"
    and len: "i < length lines"
    and tok: "gt (lines ! i) = Some (token, text, column, len)"
    and warn: "token = ''warning'' \<or> token = ''warn''"
    and run: "format_loop gt ev file lines 0 [] eff0 = (res, eff')"
  shows "parseIf_body gt ev file lines start ignore i remove prune done eff =
           (if prune \<or> ignore then Continue (remove @ [i, i]) prune done eff
            else Continue (remove @ [i]) prune done
                   (eff\<lparr>warnings := warnings eff @
                      [\<lparr>msg_text = text,
                        msg_location =
                          \<lparr>loc_file = Some file, loc_line = i + 1, loc_lineText = lines ! i,
                           loc_column = Some column, loc_length = Some len\<rparr>\<rparr>]\<rparr>))
         \<and> filter (\<lambda>m. loc_line (msg_location m) = i + 1) (warnings eff') =
           (if prune \<or> ignore then []
            else [\<lparr>msg_text = text,
                   msg_location =
                     \<lparr>loc_file = Some file, loc_line = i + 1, loc_lineText = lines ! i,
                      loc_column = Some column, loc_length = Some len\<rparr>\<rparr>])"
proof -
  let ?m = "\<lparr>msg_text = text,
             msg_location =
               \<lparr>loc_file = Some file, loc_line = i + 1, loc_lineText = lines ! i,
                loc_column = Some column, loc_length = Some len\<rparr>\<rparr>"
  let ?new = "if prune \<or> ignore then [] else [?m]"
  let ?remove = "if prune \<or> ignore then remove @ [i, i] else remove @ [i]"
  let ?eff = "eff\<lparr>warnings := warnings eff @ ?new\<rparr>"
  note body = body_warning [of gt lines i token "text" column len ev "file" start ignore remove
      prune "done" eff, OF tok warn]
  then have pass: "parseIf_body gt ev file lines start ignore i remove prune done eff
                     = Continue ?remove prune done ?eff"
    by simp
  from reached_continue [OF at len pass]
  have next_at: "reached gt ev file lines eff0 (Frame start ignore (i + 1) ?remove prune done ?eff)" .
  obtain r eff1 where loop:
    "parseIf_loop gt ev file lines start ignore (i + 1) ?remove prune done ?eff = (r, eff1)"
    by (cases "parseIf_loop gt ev file lines start ignore (i + 1) ?remove prune done ?eff") auto
  from parseIf_loop_trace [OF loop] obtain ws where
    ws: "warnings eff1 = warnings eff @ ?new @ ws" "later_than (i + 1) ws"
    by auto
  have "\<exists>ws'. warnings eff' = warnings eff1 @ ws' \<and> later_than (i + 1) ws'"
  proof (cases r)
    case (Inl err)
    from run_of_Frame_Inl [OF loop [unfolded Inl] reached_run_of [OF next_at]] run
    have "eff' = eff1" by auto
    then show ?thesis by simp
  next
    case (Inr b)
    obtain e rm where b: "b = (e, rm)" by (cases b) auto
    from parseIf_loop_end [OF loop [unfolded Inr b]] have e: "i + 1 \<le> e + 1" by simp
    from run_of_Frame_Inr [OF loop [unfolded Inr b] reached_run_of [OF next_at] run]
    obtain ws' where "warnings eff' = warnings eff1 @ ws'" "later_than (e + 1) ws'"
      by blast
    with later_than_mono [OF _ e] show ?thesis by blast
  qed
  then obtain ws' where ws': "warnings eff' = warnings eff1 @ ws'" "later_than (i + 1) ws'"
    by blast
  from reached_warnings [OF at fresh] have "up_to i (warnings eff)" by simp
  with ws ws' have "filter (\<lambda>m. loc_line (msg_location m) = i + 1) (warnings eff') = ?new"
    by (simp add: filter_up_to filter_later_than)
  with body show ?thesis by simp
qed

theorem warning_directive_witness:
  "reached (getToken True) sample_engine ''a.js''
     [''///#if true'', ''///#warning hi'', ''///#endif''] no_effects
     (Frame 0 False 1 [0] False True \<lparr>warnings = [], evals = [(''true'', 0)]\<rparr>)
   \<and> warnings no_effects = []
   \<and> 1 < length [''///#if true'', ''///#warning hi'', ''///#endif'']
   \<and> getToken True ([''///#if true'', ''///#warning hi'', ''///#endif''] ! 1)
       = Some (''warning'', ''hi'', 0, 14)
   \<and> format_loop (getToken True) sample_engine ''a.js''
         [''///#if true'', ''///#warning hi'', ''///#endif''] 0 [] no_effects
       = (Inr [0, 1, 2],
          \<lparr>warnings =
             [\<lparr>msg_text = ''hi'',
               msg_location =
                 \<lparr>loc_file = Some ''a.js'', loc_line = 2, loc_lineText = ''///#warning hi'',
                  loc_column = Some 0, loc_length = Some 14\<rparr>\<rparr>],
           evals = [(''true'', 0)]\<rparr>)
   \<and> parseIf_body (getToken True) sample_engine ''a.js''
         [''///#if true'', ''///#warning hi'', ''///#endif''] 0 False 1 [0] False True
         \<lparr>warnings = [], evals = [(''true'', 0)]\<rparr>
       = Continue [0, 1] False True
           \<lparr>warnings =
              [\<lparr>msg_text = ''hi'',
                msg_location =
                  \<lparr>loc_file = Some ''a.js'', loc_line = 2, loc_lineText = ''///#warning hi'',
                   loc_column = Some 0, loc_length = Some 14\<rparr>\<rparr>],
            evals = [(''true'', 0)]\<rparr>
   \<and> filter (\<lambda>m. loc_line (msg_location m) = 2)
         [\<lparr>msg_text = ''hi'',
           msg_location =
             \<lparr>loc_file = Some ''a.js'', loc_line = 2, loc_lineText = ''///#warning hi'',
              loc_column = Some 0, loc_length = Some 14\<rparr>\<rparr>]
       = [\<lparr>msg_text = ''hi'',
           msg_location =
             \<lparr>loc_file = Some ''a.js'', loc_line = 2, loc_lineText = ''///#warning hi'',
              loc_column = Some 0, loc_length = Some 14\<rparr>\<rparr>]"
proof -
  have fresh: "warnings no_effects = []"
    by (simp add: no_effects_def)
  have len: "1 < length [''///#if true'', ''///#warning hi'', ''///#endif'']"
    by simp
  have tok: "getToken True ([''///#if true'', ''///#warning hi'', ''///#endif''] ! 1)
               = Some (''warning'', ''hi'', 0, 14)"
    by (simp add: token_warning_hi)
  from warning_directive [OF reached_if_warning fresh len tok _ run_if_warning]
    reached_if_warning fresh len tok run_if_warning
  show ?thesis by simp
qed

text \<open>
  Claim C9, amended. Let the loop of \<^verbatim>\<open>format\<close> arrive at line \<open>s\<close> in a run
  that returns. When the line is an \<^verbatim>\<open>if\<close> directive, \<^verbatim>\<open>parseIf\<close> returns for the
  block that starts there, and every directive line of the block, from the \<^verbatim>\<open>if\<close>
  through the \<^verbatim>\<open>endif\<close> that ends its frame, is in the list \<^verbatim>\<open>remove\<close> that
  \<^verbatim>\<open>format\<close> ends with and is rendered removed in the output: as spaces with
  \<^verbatim>\<open>fillWithSpaces\<close>, behind \<^verbatim>\<open>//\<close> without. When the line is no \<^verbatim>\<open>if\<close>
  directive (another directive outside every block, or no directive), its index is not
  in the list and the output holds the line as it is.
\<close>

theorem block_directives_suppressed:
  assumes top: "reached gt ev file (split_lines data) eff0 (Top s remove eff)"
    and len: "s < length (split_lines data)"
    and run: "format fillWithSpaces gt ev data file eff0 = (Inr out, eff2)"
  shows "\<exists>final. format_loop gt ev file (split_lines data) 0 [] eff0 = (Inr final, eff2) \<and>
     (\<forall>expression column len.
        gt (split_lines data ! s) = Some (''if'', expression, column, len) \<longrightarrow>
        (\<exists>e rm eff1.
           parseIf gt ev file (split_lines data) s False eff = (Inr (e, rm), eff1) \<and>
           (\<forall>k. s \<le> k \<and> k \<le> e \<and> gt (split_lines data ! k) \<noteq> None \<longrightarrow>
              k \<in> set final \<and>
              split_lines out ! k =
                (if fillWithSpaces then replicate (length (split_lines data ! k)) CHR 0x20
                 else ''//'' @ split_lines data ! k)))) \<and>
     ((\<forall>expression column len.
         gt (split_lines data ! s) \<noteq> Some (''if'', expression, column, len)) \<longrightarrow>
      s \<notin> set final \<and> split_lines out ! s = split_lines data ! s)"
proof -
  let ?lines = "split_lines data"
  from split_lines_format [OF run] obtain final where
    loop: "format_loop gt ev file ?lines 0 [] eff0 = (Inr final, eff2)" and
    out: "split_lines out = render fillWithSpaces final ?lines"
    by blast
  from reached_run_of [OF top] loop
  have here: "format_loop gt ev file ?lines s remove eff = (Inr final, eff2)"
    by simp
  have blocks: "\<exists>e rm eff1.
           parseIf gt ev file ?lines s False eff = (Inr (e, rm), eff1) \<and>
           (\<forall>k. s \<le> k \<and> k \<le> e \<and> gt (?lines ! k) \<noteq> None \<longrightarrow>
              k \<in> set final \<and>
              split_lines out ! k =
                (if fillWithSpaces then replicate (length (?lines ! k)) CHR 0x20
                 else ''//'' @ ?lines ! k))"
    if tok: "gt (?lines ! s) = Some (''if'', expression, column, len)"
    for expression column len
  proof -
    obtain r eff1 where p: "parseIf gt ev file ?lines s False eff = (r, eff1)"
      by (cases "parseIf gt ev file ?lines s False eff") auto
    from here len tok p obtain e rm where
      r: "r = Inr (e, rm)" and
      rest: "format_loop gt ev file ?lines (e + 1) (remove @ rm) eff1 = (Inr final, eff2)"
      by (cases r) (auto simp: format_loop.simps [of gt ev "file" ?lines s])
    note block = p [unfolded r]
    from format_loop_remove [OF rest] have sub: "set rm \<subseteq> set final" by simp
    from parseIf_end [OF block] have e: "e < length ?lines" by simp
    have "k \<in> set final \<and>
          split_lines out ! k =
            (if fillWithSpaces then replicate (length (?lines ! k)) CHR 0x20
             else ''//'' @ ?lines ! k)"
      if k: "s \<le> k \<and> k \<le> e \<and> gt (?lines ! k) \<noteq> None" for k
    proof -
      from parseIf_directives [OF block, of k] k sub have "k \<in> set final" by blast
      moreover from k e have "k < length ?lines" by simp
      ultimately show ?thesis by (simp add: out render_nth)
    qed
    with block show ?thesis by blast
  qed
  have outside: "s \<notin> set final \<and> split_lines out ! s = ?lines ! s"
    if tok: "\<forall>expression column len. gt (?lines ! s) \<noteq> Some (''if'', expression, column, len)"
  proof -
    have "format_loop gt ev file ?lines s remove eff
            = format_loop gt ev file ?lines (s + 1) remove eff"
    proof (cases "gt (?lines ! s)")
      case None
      with len show ?thesis by (simp add: format_loop.simps [of gt ev "file" ?lines s])
    next
      case (Some td)
      obtain token expression column len' where td: "td = (token, expression, column, len')"
        by (cases td) auto
      from tok Some td have "token \<noteq> ''if''" by auto
      with len Some td show ?thesis by (simp add: format_loop.simps [of gt ev "file" ?lines s])
    qed
    with here have "format_loop gt ev file ?lines (s + 1) remove eff = (Inr final, eff2)"
      by simp
    from format_loop_within [OF this]
    have "set final \<subseteq> set remove \<union> {s + 1..<length ?lines}" .
    moreover from reached_removed_before [OF top] have "\<forall>x \<in> set remove. x < s" by simp
    ultimately have "s \<notin> set final" by fastforce
    with len show ?thesis by (simp add: out render_nth)
  qed
  from loop blocks outside show ?thesis by blast
qed

theorem block_directives_suppressed_witness:
  "reached (getToken True) sample_engine ''a.js''
     (split_lines ''///#warning hi\<newline>///#if false\<newline>///#warning no\<newline>///#endif'')
     no_effects (Top 0 [] no_effects)
   \<and> reached (getToken True) sample_engine ''a.js''
     (split_lines ''///#warning hi\<newline>///#if false\<newline>///#warning no\<newline>///#endif'')
     no_effects (Top 1 [] no_effects)
   \<and> 1 < length
         (split_lines ''///#warning hi\<newline>///#if false\<newline>///#warning no\<newline>///#endif'')
   \<and> format False (getToken True) sample_engine
         ''///#warning hi\<newline>///#if false\<newline>///#warning no\<newline>///#endif'' ''a.js''
         no_effects
       = (Inr ''///#warning hi\<newline>/////#if false\<newline>/////#warning no\<newline>/////#endif'',
          \<lparr>warnings = [], evals = [(''false'', 1)]\<rparr>)
   \<and> getToken True ''///#warning hi'' = Some (''warning'', ''hi'', 0, 14)
   \<and> split_lines
         ''///#warning hi\<newline>/////#if false\<newline>/////#warning no\<newline>/////#endif'' ! 0
       = ''///#warning hi''
   \<and> getToken True ''///#if false'' = Some (''if'', ''false'', 0, 12)
   \<and> getToken True ''///#warning no'' = Some (''warning'', ''no'', 0, 14)
   \<and> split_lines
         ''///#warning hi\<newline>/////#if false\<newline>/////#warning no\<newline>/////#endif'' ! 2
       = ''/////#warning no''"
proof -
  let ?data = "''///#warning hi\<newline>///#if false\<newline>///#warning no\<newline>///#endif''"
  let ?out = "''///#warning hi\<newline>/////#if false\<newline>/////#warning no\<newline>/////#endif''"
  have top0: "reached (getToken True) sample_engine ''a.js'' (split_lines ?data) no_effects
                (Top 0 [] no_effects)"
    by (rule reached_start)
  have top1: "reached (getToken True) sample_engine ''a.js'' (split_lines ?data) no_effects
                (Top 1 [] no_effects)"
    unfolding split_stray_warning by (rule reached_stray_warning)
  have len0: "0 < length (split_lines ?data)" and len1: "1 < length (split_lines ?data)"
    unfolding split_stray_warning by simp_all
  have outside: "\<forall>expression column len.
      getToken True (split_lines ?data ! 0) \<noteq> Some (''if'', expression, column, len)"
    unfolding split_stray_warning by (simp add: token_warning_hi)
  have tok1: "getToken True (split_lines ?data ! 1) = Some (''if'', ''false'', 0, 12)"
    unfolding split_stray_warning by (simp add: token_if_false)
  have tok2: "getToken True (split_lines ?data ! 2) \<noteq> None"
    unfolding split_stray_warning by (simp add: token_warning_no)
  from block_directives_suppressed [OF top0 len0 format_stray_warning] outside
  have line0: "split_lines ?out ! 0 = split_lines ?data ! 0"
    by blast
  from block_directives_suppressed [OF top1 len1 format_stray_warning] tok1
  obtain e rm eff1 where
    block: "parseIf (getToken True) sample_engine ''a.js'' (split_lines ?data) 1 False no_effects
              = (Inr (e, rm), eff1)" and
    inside: "\<And>k. 1 \<le> k \<and> k \<le> e \<and> getToken True (split_lines ?data ! k) \<noteq> None \<Longrightarrow>
       split_lines ?out ! k =
         (if False then replicate (length (split_lines ?data ! k)) CHR 0x20
          else ''//'' @ split_lines ?data ! k)"
    by blast
  from block have "e = 3"
    unfolding split_stray_warning parseIf_stray_warning by simp
  with inside [of 2] tok2 have line2: "split_lines ?out ! 2 = ''//'' @ split_lines ?data ! 2"
    by simp
  from top0 top1 len1 line0 line2 show ?thesis
    by (simp add: format_stray_warning token_warning_hi token_if_false token_warning_no
        split_stray_warning)
qed

text \<open>
  Claim C9 as stated fails for a directive outside every block: the first loop of
  \<^verbatim>\<open>format\<close> skips every line whose token is not \<^verbatim>\<open>if\<close>. A file that is one
  \<^verbatim>\<open>warning\<close> directive comes back unchanged.
\<close>

theorem top_level_directive_counterexample:
  "getToken True ''///#warning hi'' = Some (''warning'', ''hi'', 0, 14)
   \<and> format_loop (getToken True) sample_engine ''a.js'' (split_lines ''///#warning hi'') 0 []
         no_effects
       = (Inr [], no_effects)
   \<and> format False (getToken True) sample_engine ''///#warning hi'' ''a.js'' no_effects
       = (Inr ''///#warning hi'', no_effects)"
  by (simp add: token_warning_hi format_def format_loop.simps render_def)

text \<open>
  Claim C10. When the run arrives at an \<^verbatim>\<open>error\<close> or \<^verbatim>\<open>err\<close> directive in a
  pruned or ignored branch, the pass through the loop body throws nothing and changes
  neither the locals nor the effects but for the index pushed to \<^verbatim>\<open>remove\<close>; the
  scan arrives at the next line; an error that ends the run later does not carry the
  line of this directive; and when the run returns, the line is in the list it returns.
\<close>

theorem inactive_error_directive:
  assumes at: "reached gt ev file lines eff0 (Frame start ignore i remove prune done eff)"
    and len: "i < length lines"
    and tok: "gt (lines ! i) = Some (token, text, column, len)"
    and err: "token = ''error'' \<or> token = ''err''"
    and off: "prune \<or> ignore"
    and run: "format_loop gt ev file lines 0 [] eff0 = (res, eff')"
  shows "parseIf_body gt ev file lines start ignore i remove prune done eff
           = Continue (remove @ [i, i]) prune done eff
         \<and> reached gt ev file lines eff0
             (Frame start ignore (i + 1) (remove @ [i, i]) prune done eff)
         \<and> (case res of Inl e \<Rightarrow> err_line e \<noteq> Some i | Inr final \<Rightarrow> i \<in> set final)"
proof -
  note pass = body_error_inactive [of gt lines i token "text" column len prune ignore ev "file"
      start remove "done" eff, OF tok err off]
  from reached_continue [OF at len pass]
  have next_at: "reached gt ev file lines eff0
                   (Frame start ignore (i + 1) (remove @ [i, i]) prune done eff)" .
  obtain r eff1 where loop:
    "parseIf_loop gt ev file lines start ignore (i + 1) (remove @ [i, i]) prune done eff
       = (r, eff1)"
    by (cases "parseIf_loop gt ev file lines start ignore (i + 1) (remove @ [i, i]) prune done eff")
      auto
  have "case res of Inl e \<Rightarrow> err_line e \<noteq> Some i | Inr final \<Rightarrow> i \<in> set final"
  proof (cases r)
    case (Inl e1)
    from parseIf_loop_trace [OF loop [unfolded Inl]]
    have "\<And>j. err_line e1 = Some j \<Longrightarrow> i + 1 \<le> j" by auto
    moreover
    from run_of_Frame_Inl [OF loop [unfolded Inl] reached_run_of [OF next_at]] run
    obtain loc where "res = Inl (e1\<lparr>err_location := Some loc\<rparr>)" by auto
    ultimately show ?thesis by fastforce
  next
    case (Inr b)
    obtain e rm where b: "b = (e, rm)" by (cases b) auto
    from parseIf_loop_end [OF loop [unfolded Inr b]] have e: "i + 1 \<le> e" by simp
    from parseIf_loop_directives [OF loop [unfolded Inr b]] have "i \<in> set rm" by auto
    with run_of_Frame_Inr [OF loop [unfolded Inr b] reached_run_of [OF next_at] run] e
    show ?thesis by (auto split: sum.splits)
  qed
  with pass next_at show ?thesis by simp
qed

theorem inactive_error_directive_witness:
  "reached (getToken True) sample_engine ''a.js''
     [''///#if false'', ''///#error stop'', ''///#endif''] no_effects
     (Frame 0 False 1 [0] True False \<lparr>warnings = [], evals = [(''false'', 0)]\<rparr>)
   \<and> 1 < length [''///#if false'', ''///#error stop'', ''///#endif'']
   \<and> getToken True ([''///#if false'', ''///#error stop'', ''///#endif''] ! 1)
       = Some (''error'', ''stop'', 0, 14)
   \<and> format_loop (getToken True) sample_engine ''a.js''
         [''///#if false'', ''///#error stop'', ''///#endif''] 0 [] no_effects
       = (Inr [0, 1, 1, 2, 2], \<lparr>warnings = [], evals = [(''false'', 0)]\<rparr>)
   \<and> parseIf_body (getToken True) sample_engine ''a.js''
         [''///#if false'', ''///#error stop'', ''///#endif''] 0 False 1 [0] True False
         \<lparr>warnings = [], evals = [(''false'', 0)]\<rparr>
       = Continue [0, 1, 1] True False \<lparr>warnings = [], evals = [(''false'', 0)]\<rparr>
   \<and> reached (getToken True) sample_engine ''a.js''
         [''///#if false'', ''///#error stop'', ''///#endif''] no_effects
         (Frame 0 False 2 [0, 1, 1] True False \<lparr>warnings = [], evals = [(''false'', 0)]\<rparr>)
   \<and> (1::nat) \<in> set [0, 1, 1, 2, 2]"
proof -
  have len: "1 < length [''///#if false'', ''///#error stop'', ''///#endif'']"
    by simp
  have tok: "getToken True ([''///#if false'', ''///#error stop'', ''///#endif''] ! 1)
               = Some (''error'', ''stop'', 0, 14)"
    by (simp add: token_error_stop)
  from inactive_error_directive [OF reached_if_false_error len tok _ _ run_if_false_error]
    reached_if_false_error len tok run_if_false_error
  show ?thesis by (simp add: numeral_2_eq_2)
qed

end
